theory Spec2Isabelle
  imports Main
begin

section \<open>JavaScript values\<close>

text \<open>
  Row indices and counts are integers. Pixel quantities (heights, offsets, scroll
  positions) are modelled as integers too, but several of them are read from arrays and
  objects that may not hold the key; JavaScript then yields \<open>undefined\<close>, and arithmetic
  on it yields \<open>NaN\<close>. The type \<open>jsnum\<close> keeps these two values apart from the numbers.
\<close>

datatype jsnum = Num int | NaN | Undefined

text \<open>\<open>a + b\<close> on numbers (\<open>undefined\<close> is converted to \<open>NaN\<close>).\<close>

fun js_add :: "jsnum \<Rightarrow> jsnum \<Rightarrow> jsnum" where
  "js_add (Num x) (Num y) = Num (x + y)"
| "js_add _ _ = NaN"

text \<open>\<open>a - b\<close>.\<close>

fun js_sub :: "jsnum \<Rightarrow> jsnum \<Rightarrow> jsnum" where
  "js_sub (Num x) (Num y) = Num (x - y)"
| "js_sub _ _ = NaN"

text \<open>\<open>a >= b\<close>: false as soon as one side is not a number.\<close>

fun js_ge :: "jsnum \<Rightarrow> jsnum \<Rightarrow> bool" where
  "js_ge (Num x) (Num y) = (y \<le> x)"
| "js_ge _ _ = False"

text \<open>\<open>a === b\<close>: \<open>NaN\<close> is equal to nothing, itself included.\<close>

fun js_strict_eq :: "jsnum \<Rightarrow> jsnum \<Rightarrow> bool" where
  "js_strict_eq (Num x) (Num y) = (x = y)"
| "js_strict_eq Undefined Undefined = True"
| "js_strict_eq _ _ = False"

text \<open>
  lodash \<open>clamp(number, lower, upper)\<close> with numeric bounds: first
  \<open>number <= upper ? number : upper\<close>, then \<open>number >= lower ? number : lower\<close>;
  \<open>NaN\<close> (and \<open>undefined\<close>, converted) passes through as \<open>NaN\<close>.
\<close>

fun clamp :: "jsnum \<Rightarrow> int \<Rightarrow> int \<Rightarrow> jsnum" where
  "clamp (Num x) lower upper =
     Num (let y = (if x \<le> upper then x else upper) in if lower \<le> y then y else lower)"
| "clamp _ lower upper = NaN"

text \<open>lodash \<open>inRange(number, start, end)\<close>: the bounds are swapped when \<open>start > end\<close>.\<close>

definition inRange :: "int \<Rightarrow> int \<Rightarrow> int \<Rightarrow> bool" where
  "inRange number start end' = (min start end' \<le> number \<and> number < max start end')"

text \<open>
  A JavaScript array indexed by slot, possibly sparse: \<open>None\<close> is a hole. The write
  \<open>xs[p] = v\<close> extends the array with holes when \<open>p\<close> is past its end.
\<close>

definition set_at :: "int option list \<Rightarrow> nat \<Rightarrow> int \<Rightarrow> int option list" where
  "set_at xs p v =
     (if p < length xs then xs[p := Some v]
      else xs @ replicate (p - length xs) None @ [Some v])"

text \<open>The property read \<open>obj[k]\<close> on an object used as a map: \<open>undefined\<close> without the key.\<close>

definition lookup :: "(int \<rightharpoonup> jsnum) \<Rightarrow> int \<Rightarrow> jsnum" where
  "lookup m k = (case m k of None \<Rightarrow> Undefined | Some v \<Rightarrow> v)"

section \<open>The slot allocator (\<open>bufferSet\<close>)\<close>

text \<open>
  Modelled from the spec: the class behind \<open>state.bufferSet\<close> is not among the source
  files; section 4.2 of the specification describes it as a bounded pool that binds row
  indices to slots. The pool is the list of its occupants: position \<open>i\<close> of the list is
  slot \<open>i\<close>, and it holds the row index bound to that slot. There is no operation that
  frees a slot, so the occupied slots are always \<open>0 ..< size\<close>.
\<close>

type_synonym bufferSet = "int list"

text \<open>
  Modelled from the spec: \<open>positionOf(rowIndex) \<rightarrow> Slot | none\<close>, called
  \<open>getValuePosition\<close> by the source.
\<close>

fun getValuePosition :: "bufferSet \<Rightarrow> int \<Rightarrow> nat option" where
  "getValuePosition [] v = None"
| "getValuePosition (x # xs) v =
     (if x = v then Some 0 else map_option Suc (getValuePosition xs v))"

text \<open>
  Modelled from the spec: \<open>size() \<rightarrow> count of occupied slots\<close>, called \<open>getSize\<close> by the
  source.
\<close>

definition getSize :: "bufferSet \<Rightarrow> nat" where
  "getSize bs = length bs"

text \<open>
  Modelled from the spec: \<open>allocateFresh(rowIndex) \<rightarrow> Slot\<close> binds a previously unused slot
  to the row index; the source calls it \<open>getNewPositionForValue\<close>. The unused slot taken
  is the next one, \<open>size\<close>.
\<close>

definition getNewPositionForValue :: "bufferSet \<Rightarrow> int \<Rightarrow> nat \<times> bufferSet" where
  "getNewPositionForValue bs v = (length bs, bs @ [v])"

text \<open>
  Modelled from the spec: the distance of a row index from the closed interval
  \<open>[rangeStart, rangeEnd]\<close>, \<open>d(idx) = max(rangeStart - idx, idx - rangeEnd, 0)\<close>.
\<close>

definition distance :: "int \<Rightarrow> int \<Rightarrow> int \<Rightarrow> int" where
  "distance rangeStart rangeEnd idx = max (rangeStart - idx) (max (idx - rangeEnd) 0)"

text \<open>
  Modelled from the spec: occupant \<open>a\<close> is evicted rather than occupant \<open>b\<close> when it is
  further from the interval, ties broken by the smaller row index.
\<close>

definition further :: "int \<Rightarrow> int \<Rightarrow> int \<Rightarrow> int \<Rightarrow> bool" where
  "further rangeStart rangeEnd a b =
     (distance rangeStart rangeEnd b < distance rangeStart rangeEnd a \<or>
      (distance rangeStart rangeEnd a = distance rangeStart rangeEnd b \<and> a < b))"

text \<open>
  Modelled from the spec: among the occupants whose row index lies outside the closed
  interval, the one to evict; none when every occupant lies inside.
\<close>

fun furthestOutside :: "int \<Rightarrow> int \<Rightarrow> bufferSet \<Rightarrow> int option" where
  "furthestOutside rangeStart rangeEnd [] = None"
| "furthestOutside rangeStart rangeEnd (x # xs) =
     (if rangeStart \<le> x \<and> x \<le> rangeEnd then furthestOutside rangeStart rangeEnd xs
      else (case furthestOutside rangeStart rangeEnd xs of
              None \<Rightarrow> Some x
            | Some y \<Rightarrow> if further rangeStart rangeEnd y x then Some y else Some x))"

text \<open>
  Modelled from the spec: \<open>evictFurthestOutside(rangeStart, rangeEnd, rowIndex) \<rightarrow> Slot | none\<close>
  rebinds the slot of the occupant chosen above to the new row index and returns the
  slot; the source calls it \<open>replaceFurthestValuePosition\<close>.
\<close>

definition replaceFurthestValuePosition ::
  "bufferSet \<Rightarrow> int \<Rightarrow> int \<Rightarrow> int \<Rightarrow> nat option \<times> bufferSet" where
  "replaceFurthestValuePosition bs lowValue highValue newValue =
     (case furthestOutside lowValue highValue bs of
        None \<Rightarrow> (None, bs)
      | Some victim \<Rightarrow>
          (case getValuePosition bs victim of
             None \<Rightarrow> (None, bs)
           | Some p \<Rightarrow> (Some p, bs[p := newValue])))"

section \<open>State, scroll anchor, row range\<close>

record rowSettings =
  rowsCount :: int

text \<open>
  The properties of the state object that \<open>computeRenderedRows\<close> reads or writes. Five of
  them are objects of their own: the slot allocator \<open>bufferSet\<close>, the prefix-sum index
  \<open>rowOffsets\<close>, the array \<open>storedHeights\<close>, the array \<open>rows\<close> and the object
  \<open>rowHeights\<close>. The record leaves their types open, so that it serves both for a state
  given by value (the five properties hold the contents of the objects) and for a state
  object in a store (they hold references).
\<close>

record ('bs, 'ro, 'sh, 'rw, 'rh) stateObject =
  rowSettings :: rowSettings
  scrollContentHeight :: int
  scrolling :: bool
  bufferSet :: 'bs
  rowOffsets :: 'ro
  storedHeights :: 'sh
  firstRowIndex :: int
  firstRowOffset :: jsnum
  scrollY :: jsnum
  rows :: 'rw
  rowHeights :: 'rh
  maxScrollY :: int
  scrollJumpedY :: bool

text \<open>
  The state by value. \<open>rowOffsets\<close> is represented by its query \<open>sumUntil\<close>;
  \<open>storedHeights\<close> is the array of row heights (\<open>undefined\<close> outside the array);
  \<open>rows\<close> is the array from slot to row index; \<open>rowHeights\<close> is the object from row index to
  offset.
\<close>

type_synonym state =
  "(bufferSet, int \<Rightarrow> int, int \<Rightarrow> jsnum, int option list, int \<rightharpoonup> jsnum) stateObject"

text \<open>
  The scroll anchor. \<open>firstIndex\<close> and \<open>lastIndex\<close> may be absent (\<open>undefined\<close>): the
  source itself builds an anchor \<open>{firstOffset: 0, lastIndex: rowsCount - 1}\<close>. The
  anchor's \<open>scrollJumpedY\<close> is the field \<open>jumpRequested\<close> (the state has a property of the
  same name).
\<close>

record scrollAnchor =
  firstIndex :: "int option"
  firstOffset :: int
  lastIndex :: "int option"
  jumpRequested :: "bool option"

record rowRange =
  endBufferIdx :: int
  endViewportIdx :: int
  firstBufferIdx :: int
  firstViewportIdx :: int

record roughHeights =
  bufferRowCount :: int
  maxAvailableHeight :: int

text \<open>
  The collaborators imported by the module, which are not among the source files, are
  parameters of the model: \<open>updateRowHeight(state, rowIdx)\<close> returns the row's height and
  may update the state it is given; the three selectors read the state
  (\<open>scrollbarsVisibleSelector\<close> gives \<open>availableHeight\<close>, \<open>tableHeightsSelector\<close> gives
  \<open>bodyHeight\<close>).
\<close>

record collab =
  updateRowHeight :: "state \<Rightarrow> int \<Rightarrow> int \<times> state"
  roughHeightsSelector :: "state \<Rightarrow> roughHeights"
  scrollbarsVisibleSelector :: "state \<Rightarrow> int"
  tableHeightsSelector :: "state \<Rightarrow> int"

section \<open>\<open>calculateRenderedRowRange\<close>\<close>

text \<open>
  The loop that walks the viewport until it is filled with rows. \<open>backward\<close> stands for
  \<open>step = -1\<close>, otherwise \<open>step = 1\<close>. It returns \<open>endIdx\<close>, \<open>totalHeight\<close> and the state.
\<close>

function walkViewport ::
  "collab \<Rightarrow> bool \<Rightarrow> int \<Rightarrow> int \<Rightarrow> state \<Rightarrow> int \<Rightarrow> int \<Rightarrow> int \<Rightarrow> int \<times> int \<times> state" where
  "walkViewport c backward n maxH s rowIdx endIdx totalHeight =
     (if rowIdx < n \<and> 0 \<le> rowIdx \<and> totalHeight < maxH then
        walkViewport c backward n maxH (snd (updateRowHeight c s rowIdx))
          (rowIdx + (if backward then - 1 else 1)) rowIdx
          (totalHeight + fst (updateRowHeight c s rowIdx))
      else (endIdx, totalHeight, s))"
  by pat_completeness auto
termination
  by (relation "measure (\<lambda>(c, backward, n, maxH, s, rowIdx, endIdx, totalHeight).
        if backward then nat (rowIdx + 1) else nat (n - rowIdx))") auto

declare walkViewport.simps [simp del]

text \<open>
  The two buffer loops: \<open>for (rowIdx = lo; rowIdx < hi; rowIdx++) updateRowHeight(state, rowIdx)\<close>.
\<close>

function touchRows :: "collab \<Rightarrow> state \<Rightarrow> int \<Rightarrow> int \<Rightarrow> state" where
  "touchRows c s rowIdx hi =
     (if rowIdx < hi then touchRows c (snd (updateRowHeight c s rowIdx)) (rowIdx + 1) hi
      else s)"
  by pat_completeness auto
termination
  by (relation "measure (\<lambda>(c, s, rowIdx, hi). nat (hi - rowIdx))") auto

declare touchRows.simps [simp del]

text \<open>\<open>x >= rowsCount\<close> for an index that may be \<open>undefined\<close>.\<close>

definition idx_ge :: "int option \<Rightarrow> int \<Rightarrow> bool" where
  "idx_ge x n = (case x of None \<Rightarrow> False | Some i \<Rightarrow> n \<le> i)"

text \<open>
  The function returns the row range and the state it has altered. When the anchor has
  neither \<open>firstIndex\<close> nor \<open>lastIndex\<close> (and the table has rows), every index the source
  computes is \<open>NaN\<close>; integer indices cannot express that, and the model answers \<open>None\<close>.
\<close>

definition calculateRenderedRowRange ::
  "collab \<Rightarrow> state \<Rightarrow> scrollAnchor \<Rightarrow> (rowRange \<times> state) option" where
  "calculateRenderedRowRange c state0 anchor =
    (let rh = roughHeightsSelector c state0;
         n = rowsCount (rowSettings state0)
     in
     if n = 0 then
       Some (\<lparr>endBufferIdx = 0, endViewportIdx = 0, firstBufferIdx = 0, firstViewportIdx = 0\<rparr>,
             state0)
     else
       let lastIdx = (if idx_ge (firstIndex anchor) n \<or> idx_ge (lastIndex anchor) n
                      then Some (n - 1) else lastIndex anchor);
           start = (case lastIdx of Some l \<Rightarrow> Some l | None \<Rightarrow> firstIndex anchor)
       in
       case start of
         None \<Rightarrow> None
       | Some startIdx \<Rightarrow>
           let backward = (lastIdx \<noteq> None);
               (endIdx, totalHeight, s1) =
                  walkViewport c backward n (maxAvailableHeight rh) state0 startIdx startIdx
                    (if backward then 0 else firstOffset anchor);
               firstViewportIdx0 = min startIdx endIdx;
               firstBufferIdx' = max (firstViewportIdx0 - bufferRowCount rh) 0;
               s2 = touchRows c s1 firstBufferIdx' firstViewportIdx0;
               endViewportIdx' = max startIdx endIdx + 1;
               endBufferIdx' = min (endViewportIdx' + bufferRowCount rh) n;
               s3 = touchRows c s2 endViewportIdx' endBufferIdx';
               availableHeight = scrollbarsVisibleSelector c s3;
               (firstViewportIdx', firstOffset') =
                  (if backward then
                     let fo = min (availableHeight - totalHeight) 0 in
                     if js_ge (Num (- 1 * fo)) (storedHeights s3 firstViewportIdx0)
                     then (firstViewportIdx0 + 1,
                           js_add (Num fo) (storedHeights s3 (firstViewportIdx0 + 1)))
                     else (firstViewportIdx0, Num fo)
                   else (firstViewportIdx0, Num (firstOffset anchor)))
           in
           Some (\<lparr>endBufferIdx = endBufferIdx', endViewportIdx = endViewportIdx',
                   firstBufferIdx = firstBufferIdx', firstViewportIdx = firstViewportIdx'\<rparr>,
                 s3\<lparr>firstRowIndex := firstViewportIdx', firstRowOffset := firstOffset'\<rparr>))"

section \<open>\<open>computeRenderedRowOffsets\<close>\<close>

text \<open>
  \<open>addRowToBuffer(rowIdx, bufferSet, startRange, endRange, maxBufferSize)\<close> returns the
  position of the row and the buffer set it has altered.
\<close>

definition addRowToBuffer :: "int \<Rightarrow> bufferSet \<Rightarrow> int \<Rightarrow> int \<Rightarrow> int \<Rightarrow> nat \<times> bufferSet" where
  "addRowToBuffer rowIdx bs startRange endRange maxBufferSize =
     (let rowPosition = getValuePosition bs rowIdx;
          (rowPosition', bs') =
             (if rowPosition = None \<and> maxBufferSize \<le> int (getSize bs)
              then replaceFurthestValuePosition bs startRange (endRange - 1) rowIdx
              else (rowPosition, bs))
      in case rowPosition' of
           None \<Rightarrow> getNewPositionForValue bs' rowIdx
         | Some p \<Rightarrow> (p, bs'))"

text \<open>
  The loop \<open>for (rowIdx = firstBufferIdx; rowIdx < endBufferIdx; rowIdx++)\<close>. It carries
  the buffer set, \<open>bufferMapping\<close>, \<open>rowOffsetsCache\<close> and \<open>runningOffset\<close>.
\<close>

function walkRows ::
  "bool \<Rightarrow> (int \<Rightarrow> jsnum) \<Rightarrow> rowRange \<Rightarrow> int \<Rightarrow> bufferSet \<Rightarrow> int option list \<Rightarrow>
   (int \<rightharpoonup> jsnum) \<Rightarrow> jsnum \<Rightarrow> bufferSet \<times> int option list \<times> (int \<rightharpoonup> jsnum)" where
  "walkRows viewportOnly storedH rowRange rowIdx bs bufferMapping cache runningOffset =
     (if rowIdx < endBufferIdx rowRange then
        if viewportOnly \<and> (rowIdx < firstViewportIdx rowRange \<or> endViewportIdx rowRange \<le> rowIdx)
        then walkRows viewportOnly storedH rowRange (rowIdx + 1) bs bufferMapping
               (cache(rowIdx \<mapsto> runningOffset)) (js_add runningOffset (storedH rowIdx))
        else
          walkRows viewportOnly storedH rowRange (rowIdx + 1)
            (snd (addRowToBuffer rowIdx bs (firstViewportIdx rowRange) (endViewportIdx rowRange)
                    (endBufferIdx rowRange - firstBufferIdx rowRange)))
            (set_at bufferMapping
               (fst (addRowToBuffer rowIdx bs (firstViewportIdx rowRange) (endViewportIdx rowRange)
                       (endBufferIdx rowRange - firstBufferIdx rowRange)))
               rowIdx)
            (cache(rowIdx \<mapsto> runningOffset)) (js_add runningOffset (storedH rowIdx))
      else (bs, bufferMapping, cache))"
  by pat_completeness auto
termination
  by (relation "measure (\<lambda>(viewportOnly, storedH, rowRange, rowIdx, bs, bufferMapping, cache,
        runningOffset). nat (endBufferIdx rowRange - rowIdx))") auto

declare walkRows.simps [simp del]

text \<open>
  The row indices an array holds, in slot order. A hole of a sparse array reads as
  \<open>undefined\<close>, which is not a row index; the property named \<open>undefined\<close> that the source
  can write into \<open>rowHeights\<close> for it is not part of the model, whose keys are integers.
\<close>

definition rowsOf :: "int option list \<Rightarrow> int list" where
  "rowsOf xs = List.map_filter (\<lambda>x. x) xs"

text \<open>
  \<open>rowsNotInBuffer.forEach(rowIdx => rowOffsetsCache[rowIdx] = state.rowHeights[rowIdx])\<close>
  and its counterpart in the earlier module.
\<close>

definition carryOver :: "(int \<rightharpoonup> jsnum) \<Rightarrow> int list \<Rightarrow> (int \<rightharpoonup> jsnum) \<Rightarrow> (int \<rightharpoonup> jsnum)" where
  "carryOver old rs cache = fold (\<lambda>rowIdx m. m(rowIdx \<mapsto> lookup old rowIdx)) rs cache"

definition computeRenderedRowOffsets :: "state \<Rightarrow> rowRange \<Rightarrow> bool \<Rightarrow> state" where
  "computeRenderedRowOffsets state0 rowRange computeWithinViewportOnly =
     (let renderedRowsCount = endBufferIdx rowRange - firstBufferIdx rowRange in
      if renderedRowsCount = 0 then state0\<lparr>rowHeights := Map.empty, rows := []\<rparr>
      else
        let (bs, bufferMapping, rowOffsetsCache) =
               walkRows computeWithinViewportOnly (storedHeights state0) rowRange
                 (firstBufferIdx rowRange) (bufferSet state0)
                 (if computeWithinViewportOnly then rows state0 else []) Map.empty
                 (Num (rowOffsets state0 (firstBufferIdx rowRange)));
            rowOffsetsCache' =
               (if computeWithinViewportOnly then
                  carryOver (rowHeights state0)
                    (filter (\<lambda>rowIdx. \<not> inRange rowIdx (firstBufferIdx rowRange) (endBufferIdx rowRange))
                       (rowsOf bufferMapping))
                    rowOffsetsCache
                else rowOffsetsCache)
        in state0\<lparr>bufferSet := bs, rowHeights := rowOffsetsCache', rows := bufferMapping\<rparr>)"

section \<open>\<open>computeRenderedRows\<close>\<close>

text \<open>
  The first half of \<open>computeRenderedRows\<close>, up to the call of
  \<open>computeRenderedRowOffsets\<close>: the row range in force, the copy of the state as altered
  so far, and the constants \<open>rowsCount\<close> and \<open>maxScrollY\<close> (both read after the first
  resolution of the range).
\<close>

definition resolveRowRange ::
  "collab \<Rightarrow> state \<Rightarrow> scrollAnchor \<Rightarrow> (rowRange \<times> state \<times> int \<times> int) option" where
  "resolveRowRange c state0 anchor =
     (case calculateRenderedRowRange c state0 anchor of
        None \<Rightarrow> None
      | Some (rowRange1, newState1) \<Rightarrow>
          let n = rowsCount (rowSettings newState1);
              maxScrollY' = scrollContentHeight newState1 - tableHeightsSelector c newState1
          in
          if maxScrollY' = 0 then
            (if 0 < firstViewportIdx rowRange1 then
               (case calculateRenderedRowRange c newState1
                       \<lparr>firstIndex = None, firstOffset = 0, lastIndex = Some (n - 1),
                        jumpRequested = None\<rparr> of
                  None \<Rightarrow> None
                | Some (rowRange2, newState2) \<Rightarrow>
                    Some (rowRange2, newState2\<lparr>firstRowOffset := Num 0\<rparr>, n, maxScrollY'))
             else Some (rowRange1, newState1\<lparr>firstRowOffset := Num 0\<rparr>, n, maxScrollY'))
          else Some (rowRange1, newState1, n, maxScrollY'))"

text \<open>
  \<open>scrollY\<close> before it is clamped: \<open>rowHeights[firstViewportIdx] - firstRowOffset\<close> when
  the table has rows, \<open>0\<close> otherwise.
\<close>

definition resolvedScrollY :: "int \<Rightarrow> rowRange \<Rightarrow> state \<Rightarrow> jsnum" where
  "resolvedScrollY n rowRange newState =
     (if 0 < n
      then js_sub (lookup (rowHeights newState) (firstViewportIdx rowRange)) (firstRowOffset newState)
      else Num 0)"

definition scrollYBeforeClamp :: "collab \<Rightarrow> state \<Rightarrow> scrollAnchor \<Rightarrow> jsnum option" where
  "scrollYBeforeClamp c state0 anchor =
     (case resolveRowRange c state0 anchor of
        None \<Rightarrow> None
      | Some (rowRange, newState, n, maxScrollY') \<Rightarrow>
          Some (resolvedScrollY n rowRange
                  (computeRenderedRowOffsets newState rowRange (scrolling state0))))"

text \<open>
  The state is passed by value, so the model's argument is at once the caller's object
  (read for \<open>state.scrolling\<close> and \<open>state.scrollY\<close>) and the source of the shallow copy.
\<close>

definition computeRenderedRows :: "collab \<Rightarrow> state \<Rightarrow> scrollAnchor \<Rightarrow> state option" where
  "computeRenderedRows c state0 anchor =
     (case resolveRowRange c state0 anchor of
        None \<Rightarrow> None
      | Some (rowRange, newState, n, maxScrollY') \<Rightarrow>
          let newState' = computeRenderedRowOffsets newState rowRange (scrolling state0);
              scrollY0 = resolvedScrollY n rowRange newState';
              jumped = (jumpRequested anchor = Some True \<and>
                        \<not> js_strict_eq scrollY0 (scrollY state0))
          in Some (newState'\<lparr>maxScrollY := maxScrollY',
                             scrollY := clamp scrollY0 0 maxScrollY',
                             scrollJumpedY := jumped\<rparr>))"

section \<open>State objects in a store\<close>

text \<open>
  JavaScript passes objects by reference. To follow which object a write goes to, the
  state objects and the five kinds of objects they refer to live in a store, one map from
  references per kind; \<open>nextRef\<close> is the next unused reference. A state object in the
  store holds its scalar properties and the references of its \<open>bufferSet\<close>, \<open>rowOffsets\<close>,
  \<open>storedHeights\<close>, \<open>rows\<close> and \<open>rowHeights\<close>.
\<close>

type_synonym ref = nat

type_synonym stateRefs = "(ref, ref, ref, ref, ref) stateObject"

record store =
  stateObjects :: "ref \<Rightarrow> stateRefs"
  bufferSetObjects :: "ref \<Rightarrow> bufferSet"
  rowOffsetsObjects :: "ref \<Rightarrow> (int \<Rightarrow> int)"
  storedHeightsArrays :: "ref \<Rightarrow> (int \<Rightarrow> jsnum)"
  rowsArrays :: "ref \<Rightarrow> int option list"
  rowHeightsObjects :: "ref \<Rightarrow> (int \<rightharpoonup> jsnum)"
  nextRef :: ref

text \<open>The state object at \<open>p\<close> with the contents of the objects it refers to.\<close>

definition readState :: "store \<Rightarrow> ref \<Rightarrow> state" where
  "readState h p =
     (let ob = stateObjects h p in
      \<lparr>rowSettings = rowSettings ob,
       scrollContentHeight = scrollContentHeight ob,
       scrolling = scrolling ob,
       bufferSet = bufferSetObjects h (bufferSet ob),
       rowOffsets = rowOffsetsObjects h (rowOffsets ob),
       storedHeights = storedHeightsArrays h (storedHeights ob),
       firstRowIndex = firstRowIndex ob,
       firstRowOffset = firstRowOffset ob,
       scrollY = scrollY ob,
       rows = rowsArrays h (rows ob),
       rowHeights = rowHeightsObjects h (rowHeights ob),
       maxScrollY = maxScrollY ob,
       scrollJumpedY = scrollJumpedY ob\<rparr>)"

text \<open>
  Writing a state back in place: the scalar properties go to the state object at \<open>p\<close>,
  the contents of the five nested objects go to the objects that \<open>p\<close> refers to; no
  reference is changed.
\<close>

definition writeState :: "store \<Rightarrow> ref \<Rightarrow> state \<Rightarrow> store" where
  "writeState h p s =
     (let ob = stateObjects h p in
      h\<lparr>stateObjects := (stateObjects h)
            (p := ob\<lparr>rowSettings := rowSettings s,
                     scrollContentHeight := scrollContentHeight s,
                     scrolling := scrolling s,
                     firstRowIndex := firstRowIndex s,
                     firstRowOffset := firstRowOffset s,
                     scrollY := scrollY s,
                     maxScrollY := maxScrollY s,
                     scrollJumpedY := scrollJumpedY s\<rparr>),
        bufferSetObjects := (bufferSetObjects h)(bufferSet ob := bufferSet s),
        rowOffsetsObjects := (rowOffsetsObjects h)(rowOffsets ob := rowOffsets s),
        storedHeightsArrays := (storedHeightsArrays h)(storedHeights ob := storedHeights s),
        rowsArrays := (rowsArrays h)(rows ob := rows s),
        rowHeightsObjects := (rowHeightsObjects h)(rowHeights ob := rowHeights s)\<rparr>)"

text \<open>
  \<open>calculateRenderedRowRange(state, scrollAnchor)\<close> on the state object at \<open>p\<close>. The source
  reads properties of the object it is given, passes it to the collaborators, and assigns
  \<open>state.firstRowIndex\<close> and \<open>state.firstRowOffset\<close>; the collaborators are taken to alter
  that object and the objects it refers to in place, and nothing else.
\<close>

definition calculateRenderedRowRange_at ::
  "collab \<Rightarrow> store \<Rightarrow> ref \<Rightarrow> scrollAnchor \<Rightarrow> (rowRange \<times> store) option" where
  "calculateRenderedRowRange_at c h p anchor =
     map_option (\<lambda>(rowRange, s'). (rowRange, writeState h p s'))
       (calculateRenderedRowRange c (readState h p) anchor)"

text \<open>
  \<open>computeRenderedRowOffsets(state, rowRange, computeWithinViewportOnly)\<close> on the state
  object at \<open>p\<close>. The loop alters the allocator in place. \<open>rowOffsetsCache\<close> is a new
  object; \<open>bufferMapping\<close> is the array \<open>state.rows\<close> itself in viewport-only mode and a
  new array otherwise. The two assignments at the end store their references in the
  state object.
\<close>

definition computeRenderedRowOffsets_at :: "store \<Rightarrow> ref \<Rightarrow> rowRange \<Rightarrow> bool \<Rightarrow> store" where
  "computeRenderedRowOffsets_at h p rowRange computeWithinViewportOnly =
     (let ob = stateObjects h p;
          renderedRowsCount = endBufferIdx rowRange - firstBufferIdx rowRange;
          newObject = nextRef h;
          newArray = nextRef h + 1
      in
      if renderedRowsCount = 0 then
        h\<lparr>stateObjects := (stateObjects h)(p := ob\<lparr>rowHeights := newObject, rows := newArray\<rparr>),
          rowHeightsObjects := (rowHeightsObjects h)(newObject := Map.empty),
          rowsArrays := (rowsArrays h)(newArray := []),
          nextRef := nextRef h + 2\<rparr>
      else
        let bufferMappingRef = (if computeWithinViewportOnly then rows ob else newArray);
            (bs, bufferMapping, rowOffsetsCache) =
               walkRows computeWithinViewportOnly (storedHeightsArrays h (storedHeights ob))
                 rowRange (firstBufferIdx rowRange) (bufferSetObjects h (bufferSet ob))
                 (if computeWithinViewportOnly then rowsArrays h (rows ob) else []) Map.empty
                 (Num (rowOffsetsObjects h (rowOffsets ob) (firstBufferIdx rowRange)));
            rowOffsetsCache' =
               (if computeWithinViewportOnly then
                  carryOver (rowHeightsObjects h (rowHeights ob))
                    (filter (\<lambda>rowIdx. \<not> inRange rowIdx (firstBufferIdx rowRange)
                                        (endBufferIdx rowRange))
                       (rowsOf bufferMapping))
                    rowOffsetsCache
                else rowOffsetsCache)
        in
        h\<lparr>stateObjects :=
             (stateObjects h)(p := ob\<lparr>rowHeights := newObject, rows := bufferMappingRef\<rparr>),
          bufferSetObjects := (bufferSetObjects h)(bufferSet ob := bs),
          rowHeightsObjects := (rowHeightsObjects h)(newObject := rowOffsetsCache'),
          rowsArrays := (rowsArrays h)(bufferMappingRef := bufferMapping),
          nextRef := nextRef h + 2\<rparr>)"

text \<open>
  The first half of \<open>computeRenderedRows\<close>, on the copy \<open>newState\<close> of the state object:
  the counterpart of \<open>resolveRowRange\<close>.
\<close>

definition resolveRowRange_at ::
  "collab \<Rightarrow> store \<Rightarrow> ref \<Rightarrow> scrollAnchor \<Rightarrow> (rowRange \<times> store \<times> int \<times> int) option" where
  "resolveRowRange_at c h newState anchor =
     (case calculateRenderedRowRange_at c h newState anchor of
        None \<Rightarrow> None
      | Some (rowRange1, h1) \<Rightarrow>
          let n = rowsCount (rowSettings (stateObjects h1 newState));
              maxScrollY' = scrollContentHeight (stateObjects h1 newState)
                              - tableHeightsSelector c (readState h1 newState)
          in
          if maxScrollY' = 0 then
            (if 0 < firstViewportIdx rowRange1 then
               (case calculateRenderedRowRange_at c h1 newState
                       \<lparr>firstIndex = None, firstOffset = 0, lastIndex = Some (n - 1),
                        jumpRequested = None\<rparr> of
                  None \<Rightarrow> None
                | Some (rowRange2, h2) \<Rightarrow>
                    Some (rowRange2,
                          h2\<lparr>stateObjects := (stateObjects h2)
                               (newState := (stateObjects h2 newState)
                                  \<lparr>firstRowOffset := Num 0\<rparr>)\<rparr>,
                          n, maxScrollY'))
             else Some (rowRange1,
                        h1\<lparr>stateObjects := (stateObjects h1)
                             (newState := (stateObjects h1 newState)
                                \<lparr>firstRowOffset := Num 0\<rparr>)\<rparr>,
                        n, maxScrollY'))
          else Some (rowRange1, h1, n, maxScrollY'))"

text \<open>
  \<open>computeRenderedRows(state, scrollAnchor)\<close> on the state object at \<open>p\<close>.
  \<open>Object.assign({}, state)\<close> makes a new state object with the same scalar properties and
  the same references; \<open>state.scrolling\<close> and \<open>state.scrollY\<close> are read from the object at
  \<open>p\<close> at the time of the read; the function returns the reference of the copy.
\<close>

definition computeRenderedRows_at ::
  "collab \<Rightarrow> store \<Rightarrow> ref \<Rightarrow> scrollAnchor \<Rightarrow> (ref \<times> store) option" where
  "computeRenderedRows_at c h p anchor =
     (let newState = nextRef h;
          h0 = h\<lparr>stateObjects := (stateObjects h)(newState := stateObjects h p),
                 nextRef := nextRef h + 1\<rparr>
      in
      case resolveRowRange_at c h0 newState anchor of
        None \<Rightarrow> None
      | Some (rowRange, h3, n, maxScrollY') \<Rightarrow>
          let h4 = computeRenderedRowOffsets_at h3 newState rowRange
                     (scrolling (stateObjects h3 p));
              scrollY0 =
                (if 0 < n
                 then js_sub (lookup (rowHeightsObjects h4 (rowHeights (stateObjects h4 newState)))
                                (firstViewportIdx rowRange))
                        (firstRowOffset (stateObjects h4 newState))
                 else Num 0);
              jumped = (jumpRequested anchor = Some True \<and>
                        \<not> js_strict_eq scrollY0 (scrollY (stateObjects h4 p)))
          in Some (newState,
                   h4\<lparr>stateObjects := (stateObjects h4)
                        (newState := (stateObjects h4 newState)
                           \<lparr>maxScrollY := maxScrollY',
                            scrollY := clamp scrollY0 0 maxScrollY',
                            scrollJumpedY := jumped\<rparr>)\<rparr>))"

section \<open>Conditions on the collaborators\<close>

text \<open>\<open>updateRowHeight\<close> leaves \<open>state.rowSettings\<close>, and so the number of rows, as it is.\<close>

definition keepsRowSettings :: "collab \<Rightarrow> bool" where
  "keepsRowSettings c = (\<forall>s i. rowSettings (snd (updateRowHeight c s i)) = rowSettings s)"

text \<open>
  Two states describe the same table: they agree on \<open>rowSettings\<close>, \<open>scrollContentHeight\<close>,
  \<open>scrolling\<close>, \<open>rowOffsets\<close> and \<open>storedHeights\<close>, the properties that
  \<open>computeRenderedRows\<close> itself reads and never writes.
\<close>

definition sameTable :: "state \<Rightarrow> state \<Rightarrow> bool" where
  "sameTable s t =
     (rowSettings s = rowSettings t \<and> scrollContentHeight s = scrollContentHeight t \<and>
      scrolling s = scrolling t \<and> rowOffsets s = rowOffsets t \<and>
      storedHeights s = storedHeights t)"

text \<open>
  Two states have the same frame: they differ at most in \<open>scrollContentHeight\<close>,
  \<open>rowOffsets\<close> and \<open>storedHeights\<close>, the properties that measuring a row may change.
\<close>

definition sameFrame :: "state \<Rightarrow> state \<Rightarrow> bool" where
  "sameFrame s t =
     (rowSettings s = rowSettings t \<and> scrolling s = scrolling t \<and> bufferSet s = bufferSet t \<and>
      firstRowIndex s = firstRowIndex t \<and> firstRowOffset s = firstRowOffset t \<and>
      scrollY s = scrollY t \<and> rows s = rows t \<and> rowHeights s = rowHeights t \<and>
      maxScrollY s = maxScrollY t \<and> scrollJumpedY s = scrollJumpedY t)"

text \<open>
  The contract of the collaborators (section 6 of the specification: \<open>measureOrEstimate\<close>
  is deterministic, cached, and may lazily measure on first access). \<open>updateRowHeight\<close>
  may change \<open>scrollContentHeight\<close>, \<open>rowOffsets\<close> and \<open>storedHeights\<close> and nothing else; its
  answer and its effect depend on the table only; asked again for the same row it gives
  the same answer and changes nothing; a row for which it changes nothing stays so, with
  the same height, when another row is measured. The selectors depend on the table only,
  and \<open>roughHeightsSelector\<close> does not depend on what measuring changes.
\<close>

definition measuresOnce :: "collab \<Rightarrow> bool" where
  "measuresOnce c =
     ((\<forall>s i. sameFrame s (snd (updateRowHeight c s i))) \<and>
      (\<forall>s t i. sameTable s t \<longrightarrow>
         fst (updateRowHeight c s i) = fst (updateRowHeight c t i) \<and>
         sameTable (snd (updateRowHeight c s i)) (snd (updateRowHeight c t i))) \<and>
      (\<forall>s i. updateRowHeight c (snd (updateRowHeight c s i)) i = updateRowHeight c s i) \<and>
      (\<forall>s i j. snd (updateRowHeight c s j) = s \<longrightarrow>
         updateRowHeight c (snd (updateRowHeight c s i)) j =
           (fst (updateRowHeight c s j), snd (updateRowHeight c s i))) \<and>
      (\<forall>s t. sameTable s t \<longrightarrow>
         roughHeightsSelector c s = roughHeightsSelector c t \<and>
         scrollbarsVisibleSelector c s = scrollbarsVisibleSelector c t \<and>
         tableHeightsSelector c s = tableHeightsSelector c t) \<and>
      (\<forall>s i. roughHeightsSelector c (snd (updateRowHeight c s i)) = roughHeightsSelector c s))"

text \<open>
  Every row that is measured in the state \<open>x\<close> (asking for its height changes nothing) is
  measured in the state \<open>y\<close>, with the same height.
\<close>

definition keepsMeasured :: "collab \<Rightarrow> state \<Rightarrow> state \<Rightarrow> bool" where
  "keepsMeasured c x y =
     (\<forall>i. snd (updateRowHeight c x i) = x \<longrightarrow>
          updateRowHeight c y i = (fst (updateRowHeight c x i), y))"

section \<open>Conditions on the slot allocator\<close>

text \<open>
  Every occupant of the allocator outside \<open>[firstBufferIdx, endBufferIdx)\<close> is far enough
  from the viewport \<open>[firstViewportIdx, endViewportIdx - 1]\<close> to be evicted before any row
  of the range: an occupant below the range is at least as far from the viewport as the
  trailing buffer is long, and an occupant above the range is further from it than the
  leading buffer is long.
\<close>

definition outsideRowsFurther :: "rowRange \<Rightarrow> bufferSet \<Rightarrow> bool" where
  "outsideRowsFurther r bs =
     (\<forall>v \<in> set bs.
        (v < firstBufferIdx r \<longrightarrow>
           endBufferIdx r - endViewportIdx r \<le> firstViewportIdx r - v) \<and>
        (endBufferIdx r \<le> v \<longrightarrow>
           firstViewportIdx r - firstBufferIdx r < v - endViewportIdx r + 1))"

text \<open>
  The array \<open>bm\<close> holds exactly the rows \<open>lo \<le> i < hi\<close>, each at the slot the allocator
  \<open>bs\<close> gives it.
\<close>

definition slotsAgree :: "int \<Rightarrow> int \<Rightarrow> bufferSet \<Rightarrow> int option list \<Rightarrow> bool" where
  "slotsAgree lo hi bs bm =
     ((\<forall>i. lo \<le> i \<and> i < hi \<longrightarrow>
          (\<exists>p. p < length bs \<and> p < length bm \<and> bs ! p = i \<and> bm ! p = Some i)) \<and>
      (\<forall>p v. p < length bm \<and> bm ! p = Some v \<longrightarrow>
          lo \<le> v \<and> v < hi \<and> p < length bs \<and> bs ! p = v))"

text \<open>
  A slot array as JavaScript builds it by assignments \<open>bufferMapping[p] = rowIdx\<close> to an
  empty array: its last element, if any, is a row and not a hole.
\<close>

definition noTrailingHole :: "int option list \<Rightarrow> bool" where
  "noTrailingHole bm = (bm = [] \<or> last bm \<noteq> None)"

section \<open>Concrete tables\<close>

text \<open>
  Collaborators of a table whose row heights are all measured: \<open>updateRowHeight\<close> answers
  \<open>height rowIdx\<close> and leaves the state as it is, and the selectors answer the given
  constants.
\<close>

definition measuredCollab :: "(int \<Rightarrow> int) \<Rightarrow> int \<Rightarrow> int \<Rightarrow> int \<Rightarrow> int \<Rightarrow> collab" where
  "measuredCollab height buf maxAvail avail body =
     \<lparr>updateRowHeight = (\<lambda>s rowIdx. (height rowIdx, s)),
      roughHeightsSelector = (\<lambda>s. \<lparr>bufferRowCount = buf, maxAvailableHeight = maxAvail\<rparr>),
      scrollbarsVisibleSelector = (\<lambda>s. avail),
      tableHeightsSelector = (\<lambda>s. body)\<rparr>"

text \<open>
  Modelled from the spec: the height oracle of section 6, \<open>measureOrEstimate(state,
  rowIndex) \<rightarrow> height\<close>, deterministic, cached, lazily measuring on first access. The
  height of row \<open>rowIdx\<close> is \<open>height rowIdx\<close>; a row whose stored height is another value
  (an estimate) is measured: the stored height is replaced, and the prefix sums and
  \<open>scrollContentHeight\<close> move by the difference. The selectors answer the given constants.
\<close>

definition lazyCollab :: "(int \<Rightarrow> int) \<Rightarrow> int \<Rightarrow> int \<Rightarrow> int \<Rightarrow> int \<Rightarrow> collab" where
  "lazyCollab height buf maxAvail avail body =
     \<lparr>updateRowHeight = (\<lambda>s rowIdx.
        (height rowIdx,
         if storedHeights s rowIdx = Num (height rowIdx) then s
         else
           let oldHeight = (case storedHeights s rowIdx of Num h \<Rightarrow> h | _ \<Rightarrow> 0) in
           s\<lparr>scrollContentHeight := scrollContentHeight s + (height rowIdx - oldHeight),
             rowOffsets := (\<lambda>k. rowOffsets s k +
                                (if rowIdx < k then height rowIdx - oldHeight else 0)),
             storedHeights := (storedHeights s)(rowIdx := Num (height rowIdx))\<rparr>)),
      roughHeightsSelector = (\<lambda>s. \<lparr>bufferRowCount = buf, maxAvailableHeight = maxAvail\<rparr>),
      scrollbarsVisibleSelector = (\<lambda>s. avail),
      tableHeightsSelector = (\<lambda>s. body)\<rparr>"

text \<open>
  The state of a table of \<open>n\<close> rows before anything is rendered, with the stored heights
  \<open>height\<close> and their prefix sums \<open>sumUntil\<close>.
\<close>

definition tableState :: "int \<Rightarrow> (int \<Rightarrow> int) \<Rightarrow> (int \<Rightarrow> int) \<Rightarrow> state" where
  "tableState n height sumUntil =
     \<lparr>rowSettings = \<lparr>rowsCount = n\<rparr>, scrollContentHeight = sumUntil n, scrolling = False,
      bufferSet = [], rowOffsets = sumUntil,
      storedHeights = (\<lambda>i. if 0 \<le> i \<and> i < n then Num (height i) else Undefined),
      firstRowIndex = 0, firstRowOffset = Num 0, scrollY = Num 0, rows = [],
      rowHeights = Map.empty, maxScrollY = 0, scrollJumpedY = False\<rparr>"

text \<open>Two rows of heights 10 and 30.\<close>

definition heights_10_30 :: "int \<Rightarrow> int" where
  "heights_10_30 i = (if i = 0 then 10 else 30)"

definition sums_10_30 :: "int \<Rightarrow> int" where
  "sums_10_30 i = (if i \<le> 0 then 0 else if i = 1 then 10 else 40)"

section \<open>The earlier module\<close>

text \<open>
  The second source file is an earlier state of the same module. Its
  \<open>calculateRenderedRowRange\<close> is the same text as the later one, line for line, and is
  modelled by the definition above. Its other functions follow, with the suffix
  \<open>_earlier\<close>.
\<close>

text \<open>
  \<open>addRowToBuffer(rowIdx, bufferSetStartIndex, bufferSetEndIndex, bufferSet, maxBufferSize)\<close>.
\<close>

definition addRowToBuffer_earlier ::
  "int \<Rightarrow> int \<Rightarrow> int \<Rightarrow> bufferSet \<Rightarrow> int \<Rightarrow> nat \<times> bufferSet" where
  "addRowToBuffer_earlier rowIdx bufferSetStartIndex bufferSetEndIndex bs maxBufferSize =
     (let rowPosition = getValuePosition bs rowIdx;
          (rowPosition', bs') =
             (if rowPosition = None \<and> maxBufferSize \<le> int (getSize bs)
              then replaceFurthestValuePosition bs bufferSetStartIndex (bufferSetEndIndex - 1)
                     rowIdx
              else (rowPosition, bs))
      in case rowPosition' of
           None \<Rightarrow> getNewPositionForValue bs' rowIdx
         | Some p \<Rightarrow> (p, bs'))"

text \<open>
  The loop of the earlier \<open>computeRenderedRowOffsets\<close>:
  \<open>for (rowIdx = firstBufferIdx; rowIdx < endBufferIdx; rowIdx++)\<close>.
\<close>

function walkRows_earlier ::
  "(int \<Rightarrow> jsnum) \<Rightarrow> rowRange \<Rightarrow> int \<Rightarrow> bufferSet \<Rightarrow> int option list \<Rightarrow>
   (int \<rightharpoonup> jsnum) \<Rightarrow> jsnum \<Rightarrow> bufferSet \<times> int option list \<times> (int \<rightharpoonup> jsnum)" where
  "walkRows_earlier storedH rowRange rowIdx bs bufferMapping cache runningOffset =
     (if rowIdx < endBufferIdx rowRange then
        walkRows_earlier storedH rowRange (rowIdx + 1)
          (snd (addRowToBuffer_earlier rowIdx (firstViewportIdx rowRange)
                  (endViewportIdx rowRange) bs (endBufferIdx rowRange - firstBufferIdx rowRange)))
          (set_at bufferMapping
             (fst (addRowToBuffer_earlier rowIdx (firstViewportIdx rowRange)
                     (endViewportIdx rowRange) bs
                     (endBufferIdx rowRange - firstBufferIdx rowRange)))
             rowIdx)
          (cache(rowIdx \<mapsto> runningOffset)) (js_add runningOffset (storedH rowIdx))
      else (bs, bufferMapping, cache))"
  by pat_completeness auto
termination
  by (relation "measure (\<lambda>(storedH, rowRange, rowIdx, bs, bufferMapping, cache,
        runningOffset). nat (endBufferIdx rowRange - rowIdx))") auto

declare walkRows_earlier.simps [simp del]

definition computeRenderedRowOffsets_earlier :: "state \<Rightarrow> rowRange \<Rightarrow> state" where
  "computeRenderedRowOffsets_earlier state0 rowRange =
     (let renderedRowsCount = endBufferIdx rowRange - firstBufferIdx rowRange in
      if renderedRowsCount = 0 then state0\<lparr>rowHeights := Map.empty, rows := []\<rparr>
      else
        let (bs, bufferMapping, rowOffsetsCache) =
               walkRows_earlier (storedHeights state0) rowRange (firstBufferIdx rowRange)
                 (bufferSet state0) [] Map.empty
                 (Num (rowOffsets state0 (firstBufferIdx rowRange)))
        in state0\<lparr>bufferSet := bs, rowHeights := rowOffsetsCache, rows := bufferMapping\<rparr>)"

text \<open>
  The loop of \<open>computeViewPortRenderedRowOffsets\<close>:
  \<open>for (rowIdx = firstViewportIdx; rowIdx <= endViewportIdx; rowIdx++)\<close>.
\<close>

function walkViewportRows_earlier ::
  "(int \<Rightarrow> jsnum) \<Rightarrow> rowRange \<Rightarrow> int \<Rightarrow> bufferSet \<Rightarrow> int option list \<Rightarrow>
   (int \<rightharpoonup> jsnum) \<Rightarrow> jsnum \<Rightarrow> bufferSet \<times> int option list \<times> (int \<rightharpoonup> jsnum)" where
  "walkViewportRows_earlier storedH rowRange rowIdx bs bufferMapping cache runningOffset =
     (if rowIdx \<le> endViewportIdx rowRange then
        walkViewportRows_earlier storedH rowRange (rowIdx + 1)
          (snd (addRowToBuffer_earlier rowIdx (firstViewportIdx rowRange)
                  (endViewportIdx rowRange) bs (endBufferIdx rowRange - firstBufferIdx rowRange)))
          (set_at bufferMapping
             (fst (addRowToBuffer_earlier rowIdx (firstViewportIdx rowRange)
                     (endViewportIdx rowRange) bs
                     (endBufferIdx rowRange - firstBufferIdx rowRange)))
             rowIdx)
          (cache(rowIdx \<mapsto> runningOffset)) (js_add runningOffset (storedH rowIdx))
      else (bs, bufferMapping, cache))"
  by pat_completeness auto
termination
  by (relation "measure (\<lambda>(storedH, rowRange, rowIdx, bs, bufferMapping, cache,
        runningOffset). nat (endViewportIdx rowRange + 1 - rowIdx))") auto

declare walkViewportRows_earlier.simps [simp del]

text \<open>
  lodash \<open>intersection(a, b)\<close> on two slot arrays: the row indices of \<open>a\<close> that \<open>b\<close> holds
  too, each once, in the order of their first occurrence in \<open>a\<close>.
\<close>

definition intersection :: "int option list \<Rightarrow> int option list \<Rightarrow> int list" where
  "intersection xs ys = rev (remdups (rev (filter (\<lambda>r. Some r \<in> set ys) (rowsOf xs))))"

definition computeViewPortRenderedRowOffsets :: "state \<Rightarrow> rowRange \<Rightarrow> state" where
  "computeViewPortRenderedRowOffsets state0 rowRange =
     (let renderedRowsCount = endBufferIdx rowRange - firstBufferIdx rowRange in
      if renderedRowsCount = 0 then state0\<lparr>rowHeights := Map.empty, rows := []\<rparr>
      else
        let bufferMappingOld = rows state0;
            rowOffsetsCacheOld = rowHeights state0;
            (bs, bufferMapping, rowOffsetsCache) =
               walkViewportRows_earlier (storedHeights state0) rowRange
                 (firstViewportIdx rowRange) (bufferSet state0) (rows state0) Map.empty
                 (Num (rowOffsets state0 (firstBufferIdx rowRange)));
            unchangedRows = intersection bufferMapping bufferMappingOld
        in state0\<lparr>bufferSet := bs,
                  rowHeights := carryOver rowOffsetsCacheOld unchangedRows rowOffsetsCache,
                  rows := bufferMapping\<rparr>)"

definition computeRenderedRows_earlier :: "collab \<Rightarrow> state \<Rightarrow> scrollAnchor \<Rightarrow> state option" where
  "computeRenderedRows_earlier c state0 anchor =
     (case calculateRenderedRowRange c state0 anchor of
        None \<Rightarrow> None
      | Some (rowRange1, newState1) \<Rightarrow>
          let n = rowsCount (rowSettings newState1);
              maxScrollY' = scrollContentHeight newState1 - tableHeightsSelector c newState1;
              resolved =
                (if scrolling state0
                 then Some (rowRange1, computeViewPortRenderedRowOffsets newState1 rowRange1)
                 else if maxScrollY' = 0 then
                   (if 0 < firstViewportIdx rowRange1 then
                      (case calculateRenderedRowRange c newState1
                              \<lparr>firstIndex = None, firstOffset = 0, lastIndex = Some (n - 1),
                               jumpRequested = None\<rparr> of
                         None \<Rightarrow> None
                       | Some (rowRange2, newState2) \<Rightarrow>
                           Some (rowRange2, newState2\<lparr>firstRowOffset := Num 0\<rparr>))
                    else Some (rowRange1, newState1\<lparr>firstRowOffset := Num 0\<rparr>))
                 else Some (rowRange1, newState1))
          in
          (case resolved of
            None \<Rightarrow> None
          | Some (rowRange, newState) \<Rightarrow>
              let newState' = computeRenderedRowOffsets_earlier newState rowRange;
                  scrollY0 =
                    (if 0 < n
                     then js_sub (lookup (rowHeights newState') (firstViewportIdx rowRange))
                            (firstRowOffset newState')
                     else scrollY state0);
                  jumped = (jumpRequested anchor = Some True \<and>
                            \<not> js_strict_eq scrollY0 (scrollY state0))
              in Some (newState'\<lparr>maxScrollY := maxScrollY',
                                 scrollY := clamp scrollY0 0 maxScrollY',
                                 scrollJumpedY := jumped\<rparr>)))"

text \<open>
  A store with one state object, at reference 0, for a table of ten rows of height 10;
  the objects it refers to are at the references 1 to 5.
\<close>

definition tableStore :: store where
  "tableStore =
     \<lparr>stateObjects = (\<lambda>p. \<lparr>rowSettings = \<lparr>rowsCount = 10\<rparr>, scrollContentHeight = 100,
          scrolling = False, bufferSet = 1, rowOffsets = 2, storedHeights = 3,
          firstRowIndex = 0, firstRowOffset = Num 0, scrollY = Num 0, rows = 4,
          rowHeights = 5, maxScrollY = 0, scrollJumpedY = False\<rparr>),
      bufferSetObjects = (\<lambda>p. []),
      rowOffsetsObjects = (\<lambda>p i. 10 * i),
      storedHeightsArrays = (\<lambda>p i. if 0 \<le> i \<and> i < 10 then Num 10 else Undefined),
      rowsArrays = (\<lambda>p. []),
      rowHeightsObjects = (\<lambda>p. Map.empty),
      nextRef = 6\<rparr>"

section \<open>Properties\<close>

subsection \<open>The viewport walk stays inside the table\<close>

lemma walkViewport_forward:
  "walkViewport c False n maxH s rowIdx endIdx tot = (e, t, s') \<Longrightarrow>
   e = endIdx \<or> (rowIdx \<le> e \<and> 0 \<le> e \<and> e < n)"
proof (induction c "False" n maxH s rowIdx endIdx tot rule: walkViewport.induct)
  case (1 c n maxH s rowIdx endIdx tot)
  show ?case
  proof (cases "rowIdx < n \<and> 0 \<le> rowIdx \<and> tot < maxH")
    case True
    with "1.prems" have "walkViewport c False n maxH (snd (updateRowHeight c s rowIdx))
          (rowIdx + 1) rowIdx (tot + fst (updateRowHeight c s rowIdx)) = (e, t, s')"
      by (simp add: walkViewport.simps [of c False n maxH s rowIdx])
    with "1.hyps" True have "e = rowIdx \<or> (rowIdx + 1 \<le> e \<and> 0 \<le> e \<and> e < n)"
      by simp
    with True show ?thesis by auto
  next
    case False
    with "1.prems" show ?thesis
      by (simp add: walkViewport.simps [of c False n maxH s rowIdx])
  qed
qed

lemma walkViewport_backward:
  "walkViewport c True n maxH s rowIdx endIdx tot = (e, t, s') \<Longrightarrow>
   e = endIdx \<or> (e \<le> rowIdx \<and> 0 \<le> e \<and> e < n)"
proof (induction c "True" n maxH s rowIdx endIdx tot rule: walkViewport.induct)
  case (1 c n maxH s rowIdx endIdx tot)
  show ?case
  proof (cases "rowIdx < n \<and> 0 \<le> rowIdx \<and> tot < maxH")
    case True
    with "1.prems" have "walkViewport c True n maxH (snd (updateRowHeight c s rowIdx))
          (rowIdx + - 1) rowIdx (tot + fst (updateRowHeight c s rowIdx)) = (e, t, s')"
      by (simp add: walkViewport.simps [of c True n maxH s rowIdx])
    with "1.hyps" True have "e = rowIdx \<or> (e \<le> rowIdx + - 1 \<and> 0 \<le> e \<and> e < n)"
      by simp
    with True show ?thesis by auto
  next
    case False
    with "1.prems" show ?thesis
      by (simp add: walkViewport.simps [of c True n maxH s rowIdx])
  qed
qed

text \<open>
  The shape of every resolved range: the five inequalities, and a leading buffer index
  strictly below the trailing one when the table has rows.
\<close>

lemma rowRange_shape:
  assumes n: "0 \<le> rowsCount (rowSettings s)"
    and fi: "case firstIndex a of None \<Rightarrow> lastIndex a \<noteq> None | Some f \<Rightarrow> 0 \<le> f"
    and li: "case lastIndex a of None \<Rightarrow> True | Some l \<Rightarrow> 0 \<le> l"
    and buf: "0 \<le> bufferRowCount (roughHeightsSelector c s)"
  shows "\<exists>r s'. calculateRenderedRowRange c s a = Some (r, s') \<and>
     0 \<le> firstBufferIdx r \<and> firstBufferIdx r \<le> firstViewportIdx r \<and>
     firstViewportIdx r \<le> endViewportIdx r \<and> endViewportIdx r \<le> endBufferIdx r \<and>
     endBufferIdx r \<le> rowsCount (rowSettings s) \<and>
     (rowsCount (rowSettings s) = 0 \<or> firstBufferIdx r < endBufferIdx r)"
proof (cases "rowsCount (rowSettings s) = 0")
  case True
  then show ?thesis by (simp add: calculateRenderedRowRange_def)
next
  case False
  define n where "n = rowsCount (rowSettings s)"
  define lastIdx where "lastIdx = (if idx_ge (firstIndex a) n \<or> idx_ge (lastIndex a) n
                      then Some (n - 1) else lastIndex a)"
  have npos: "0 < n" using False n by (simp add: n_def)
  show ?thesis
  proof (cases lastIdx)
    case None
    then obtain f where f: "firstIndex a = Some f" "0 \<le> f" "f < n" "lastIndex a = None"
      using fi by (auto simp: lastIdx_def idx_ge_def split: option.splits if_splits)
    obtain e t s1 where w: "walkViewport c False n (maxAvailableHeight (roughHeightsSelector c s))
        s f f (firstOffset a) = (e, t, s1)"
      by (metis prod_cases3)
    from walkViewport_forward [OF w] f have e: "f \<le> e" "e < n" by auto
    show ?thesis
      using False f e w buf None
      by (simp add: calculateRenderedRowRange_def Let_def n_def [symmetric]
            lastIdx_def [symmetric] idx_ge_def)
  next
    case (Some l)
    have l: "0 \<le> l" "l < n"
      using Some li npos by (auto simp: lastIdx_def idx_ge_def split: option.splits if_splits)
    obtain e t s1 where w: "walkViewport c True n (maxAvailableHeight (roughHeightsSelector c s))
        s l l 0 = (e, t, s1)"
      by (metis prod_cases3)
    from walkViewport_backward [OF w] l have e: "e \<le> l" "0 \<le> e" by auto
    show ?thesis
      using False l e w buf Some
      by (simp add: calculateRenderedRowRange_def Let_def n_def [symmetric]
            lastIdx_def [symmetric])
  qed
qed

subsection \<open>C1: the offset after the first viewport row is advanced\<close>

text \<open>
  C1. On the backward path the source recomputes \<open>firstOffset\<close> as
  \<open>min(availableHeight - totalHeight, 0)\<close> and, when \<open>-firstOffset\<close> is at least the
  stored height of \<open>firstViewportIdx\<close>, advances \<open>firstViewportIdx\<close> by one. The claim says
  that the height of the row advanced past is then added to \<open>firstOffset\<close>. The source
  increments the index first and adds \<open>storedHeights[firstViewportIdx]\<close> afterwards, which
  is the height of the row after the skipped one. With two rows of heights 10 and 30,
  \<open>maxAvailableHeight = 40\<close>, \<open>availableHeight = 25\<close> and the anchor at \<open>lastIndex = 1\<close>,
  the walk covers both rows, \<open>firstOffset\<close> becomes \<open>-15\<close>, row 0 (height 10) is skipped,
  and the source stores \<open>-15 + 30 = 15\<close> where the claim has \<open>-15 + 10 = -5\<close>.
\<close>

theorem advance_adds_height_of_next_row:
  "\<exists>r s'. calculateRenderedRowRange (measuredCollab heights_10_30 0 40 25 25)
             (tableState 2 heights_10_30 sums_10_30)
             \<lparr>firstIndex = Some 0, firstOffset = 0, lastIndex = Some 1, jumpRequested = None\<rparr>
           = Some (r, s') \<and>
     firstViewportIdx r = 1 \<and> firstRowIndex s' = 1 \<and> firstRowOffset s' = Num 15 \<and>
     js_add (Num (min (25 - 40) 0)) (storedHeights s' 0) = Num (- 5)"
  by (simp add: calculateRenderedRowRange_def measuredCollab_def tableState_def
        heights_10_30_def sums_10_30_def idx_ge_def Let_def walkViewport.simps touchRows.simps)

subsection \<open>C3: the resolved range is ordered\<close>

text \<open>
  C3. For every state with \<open>rowsCount \<ge> 0\<close> and \<open>bufferRowCount \<ge> 0\<close>, and every anchor whose
  \<open>firstIndex\<close> is at least 0 and whose \<open>lastIndex\<close> is absent or at least 0,
  \<open>calculateRenderedRowRange\<close> returns a range with
  \<open>0 \<le> firstBufferIdx \<le> firstViewportIdx \<le> endViewportIdx \<le> endBufferIdx \<le> rowsCount\<close>,
  the advance of \<open>firstViewportIdx\<close> on the backward path included. The theorem also
  covers the anchor without \<open>firstIndex\<close> that the source builds itself, which has a
  \<open>lastIndex\<close>.
\<close>

theorem rowRange_ordered:
  assumes "0 \<le> rowsCount (rowSettings s)"
    and "case firstIndex a of None \<Rightarrow> lastIndex a \<noteq> None | Some f \<Rightarrow> 0 \<le> f"
    and "case lastIndex a of None \<Rightarrow> True | Some l \<Rightarrow> 0 \<le> l"
    and "0 \<le> bufferRowCount (roughHeightsSelector c s)"
  shows "\<exists>r s'. calculateRenderedRowRange c s a = Some (r, s') \<and>
     0 \<le> firstBufferIdx r \<and> firstBufferIdx r \<le> firstViewportIdx r \<and>
     firstViewportIdx r \<le> endViewportIdx r \<and> endViewportIdx r \<le> endBufferIdx r \<and>
     endBufferIdx r \<le> rowsCount (rowSettings s)"
  using rowRange_shape [OF assms] by blast

theorem rowRange_ordered_witness:
  "0 \<le> rowsCount (rowSettings (tableState 2 heights_10_30 sums_10_30)) \<and>
   0 \<le> bufferRowCount (roughHeightsSelector (measuredCollab heights_10_30 0 40 25 25)
          (tableState 2 heights_10_30 sums_10_30)) \<and>
   (\<exists>r s'. calculateRenderedRowRange (measuredCollab heights_10_30 0 40 25 25)
             (tableState 2 heights_10_30 sums_10_30)
             \<lparr>firstIndex = Some 0, firstOffset = 0, lastIndex = Some 1, jumpRequested = None\<rparr>
           = Some (r, s') \<and>
     0 \<le> firstBufferIdx r \<and> firstBufferIdx r \<le> firstViewportIdx r \<and>
     firstViewportIdx r \<le> endViewportIdx r \<and> endViewportIdx r \<le> endBufferIdx r \<and>
     endBufferIdx r \<le> 2)"
  using rowRange_ordered [of "tableState 2 heights_10_30 sums_10_30"
      "\<lparr>firstIndex = Some 0, firstOffset = 0, lastIndex = Some 1, jumpRequested = None\<rparr>"
      "measuredCollab heights_10_30 0 40 25 25"]
  by (simp add: measuredCollab_def tableState_def)

subsection \<open>C9: the resolved range of a table with rows is not empty\<close>

text \<open>
  C9, as stated, asks only for \<open>rowsCount > 0\<close>, \<open>firstIndex \<ge> 0\<close> and a \<open>lastIndex\<close> that is
  absent or at least 0. The buffer size returned by \<open>roughHeightsSelector\<close> matters too:
  with \<open>bufferRowCount = -1\<close> and two rows in the viewport, \<open>firstBufferIdx\<close> and
  \<open>endBufferIdx\<close> are both 1, so the range is empty although the table has two rows.
\<close>

theorem rowRange_empty_negative_buffer:
  "0 < rowsCount (rowSettings (tableState 2 (\<lambda>i. 10) (\<lambda>i. 10 * i))) \<and>
   (\<exists>r s'. calculateRenderedRowRange (measuredCollab (\<lambda>i. 10) (- 1) 20 20 20)
             (tableState 2 (\<lambda>i. 10) (\<lambda>i. 10 * i))
             \<lparr>firstIndex = Some 0, firstOffset = 0, lastIndex = None, jumpRequested = None\<rparr>
           = Some (r, s') \<and>
     endBufferIdx r - firstBufferIdx r = 0 \<and>
     rows (computeRenderedRowOffsets (s'\<lparr>rows := [Some 0]\<rparr>) r False) = [])"
  by (simp add: calculateRenderedRowRange_def measuredCollab_def tableState_def
        idx_ge_def Let_def walkViewport.simps touchRows.simps computeRenderedRowOffsets_def)

text \<open>
  C9, amended: for every state with \<open>rowsCount > 0\<close> and \<open>bufferRowCount \<ge> 0\<close>, and every anchor
  whose \<open>firstIndex\<close> is at least 0 and whose \<open>lastIndex\<close> is absent or at least 0, the range
  returned by \<open>calculateRenderedRowRange\<close> has \<open>endBufferIdx - firstBufferIdx \<ge> 1\<close>, so
  \<open>computeRenderedRowOffsets\<close> does not take its reset branch on it.
\<close>

theorem rowRange_nonempty:
  assumes "0 < rowsCount (rowSettings s)"
    and "case firstIndex a of None \<Rightarrow> lastIndex a \<noteq> None | Some f \<Rightarrow> 0 \<le> f"
    and "case lastIndex a of None \<Rightarrow> True | Some l \<Rightarrow> 0 \<le> l"
    and "0 \<le> bufferRowCount (roughHeightsSelector c s)"
  shows "\<exists>r s'. calculateRenderedRowRange c s a = Some (r, s') \<and>
     1 \<le> endBufferIdx r - firstBufferIdx r"
proof -
  have "0 \<le> rowsCount (rowSettings s)" using assms(1) by simp
  from rowRange_shape [OF this assms(2) assms(3) assms(4)] assms(1)
  show ?thesis by force
qed

theorem rowRange_nonempty_witness:
  "0 < rowsCount (rowSettings (tableState 2 (\<lambda>i. 10) (\<lambda>i. 10 * i))) \<and>
   0 \<le> bufferRowCount (roughHeightsSelector (measuredCollab (\<lambda>i. 10) 1 20 20 20)
          (tableState 2 (\<lambda>i. 10) (\<lambda>i. 10 * i))) \<and>
   (\<exists>r s'. calculateRenderedRowRange (measuredCollab (\<lambda>i. 10) 1 20 20 20)
             (tableState 2 (\<lambda>i. 10) (\<lambda>i. 10 * i))
             \<lparr>firstIndex = Some 0, firstOffset = 0, lastIndex = None, jumpRequested = None\<rparr>
           = Some (r, s') \<and>
     1 \<le> endBufferIdx r - firstBufferIdx r)"
  using rowRange_nonempty [of "tableState 2 (\<lambda>i. 10) (\<lambda>i. 10 * i)"
      "\<lparr>firstIndex = Some 0, firstOffset = 0, lastIndex = None, jumpRequested = None\<rparr>"
      "measuredCollab (\<lambda>i. 10) 1 20 20 20"]
  by (simp add: measuredCollab_def tableState_def)

subsection \<open>C2: offsets carried over in viewport-only mode\<close>

lemma walkRows_cache_outside:
  "walkRows v storedH r rowIdx bs bm cache ro = (bs', bm', cache') \<Longrightarrow>
   k < rowIdx \<or> endBufferIdx r \<le> k \<Longrightarrow> cache' k = cache k"
proof (induction v storedH r rowIdx bs bm cache ro rule: walkRows.induct)
  case (1 v storedH r rowIdx bs bm cache ro)
  show ?case
  proof (cases "rowIdx < endBufferIdx r")
    case True
    note lt = True
    show ?thesis
    proof (cases "v \<and> (rowIdx < firstViewportIdx r \<or> endViewportIdx r \<le> rowIdx)")
      case True
      with lt "1.prems"(1) have "walkRows v storedH r (rowIdx + 1) bs bm
          (cache(rowIdx \<mapsto> ro)) (js_add ro (storedH rowIdx)) = (bs', bm', cache')"
        by (simp add: walkRows.simps [of _ storedH r rowIdx])
      from "1.IH"(1) [OF lt True this] "1.prems"(2) lt
      have "cache' k = (cache(rowIdx \<mapsto> ro)) k" by auto
      with "1.prems"(2) lt show ?thesis by auto
    next
      case False
      with lt "1.prems"(1) have "walkRows v storedH r (rowIdx + 1)
          (snd (addRowToBuffer rowIdx bs (firstViewportIdx r) (endViewportIdx r)
                    (endBufferIdx r - firstBufferIdx r)))
          (set_at bm (fst (addRowToBuffer rowIdx bs (firstViewportIdx r) (endViewportIdx r)
                       (endBufferIdx r - firstBufferIdx r))) rowIdx)
          (cache(rowIdx \<mapsto> ro)) (js_add ro (storedH rowIdx)) = (bs', bm', cache')"
        by (simp add: walkRows.simps [of _ storedH r rowIdx])
      from "1.IH"(2) [OF lt False this] "1.prems"(2) lt
      have "cache' k = (cache(rowIdx \<mapsto> ro)) k" by auto
      with "1.prems"(2) lt show ?thesis by auto
    qed
  next
    case False
    with "1.prems" show ?thesis by (simp add: walkRows.simps [of _ storedH r rowIdx])
  qed
qed

lemma carryOver_apply:
  "carryOver old rs cache k = (if k \<in> set rs then Some (lookup old k) else cache k)"
  unfolding carryOver_def by (induction rs arbitrary: cache) auto

lemma set_rowsOf: "set (rowsOf xs) = {i. Some i \<in> set xs}"
  by (induction xs) (auto simp: rowsOf_def split: option.splits)

text \<open>
  C2, as stated, ends with: row indices present in neither slot mapping do not appear in
  the resulting \<open>rowHeights\<close>. The loop records an offset for every row of
  \<open>[firstBufferIdx, endBufferIdx)\<close>, also for the buffer rows outside the viewport, which
  get no slot in viewport-only mode. In a table of three rows of height 10 with no slot
  assigned yet and the viewport \<open>[1, 2)\<close> inside the range \<open>[0, 3)\<close>, row 0 is in neither
  mapping and has the offset 0 in the result.
\<close>

theorem buffer_row_without_slot_has_offset:
  "firstBufferIdx \<lparr>endBufferIdx = 3, endViewportIdx = 2, firstBufferIdx = 0, firstViewportIdx = 1\<rparr>
     < endBufferIdx \<lparr>endBufferIdx = 3, endViewportIdx = 2, firstBufferIdx = 0, firstViewportIdx = 1\<rparr> \<and>
   Some 0 \<notin> set (rows (tableState 3 (\<lambda>i. 10) (\<lambda>i. 10 * i))) \<and>
   Some 0 \<notin> set (rows (computeRenderedRowOffsets (tableState 3 (\<lambda>i. 10) (\<lambda>i. 10 * i))
      \<lparr>endBufferIdx = 3, endViewportIdx = 2, firstBufferIdx = 0, firstViewportIdx = 1\<rparr> True)) \<and>
   rowHeights (computeRenderedRowOffsets (tableState 3 (\<lambda>i. 10) (\<lambda>i. 10 * i))
      \<lparr>endBufferIdx = 3, endViewportIdx = 2, firstBufferIdx = 0, firstViewportIdx = 1\<rparr> True) 0
     = Some (Num 0)"
  by (simp add: computeRenderedRowOffsets_def tableState_def Let_def walkRows.simps
        addRowToBuffer_def getSize_def getNewPositionForValue_def set_at_def carryOver_def
        rowsOf_def inRange_def)

text \<open>
  C2, amended: in viewport-only mode with a non-empty row range, every row index that is
  present in both the previous and the resulting slot mapping but lies outside
  \<open>[firstBufferIdx, endBufferIdx)\<close> has in the resulting \<open>rowHeights\<close> exactly the value
  that the previous \<open>rowHeights\<close> gives for it; and a row index outside
  \<open>[firstBufferIdx, endBufferIdx)\<close> that is not present in the resulting slot mapping does
  not appear in the resulting \<open>rowHeights\<close>.
\<close>

theorem viewportOnly_carries_offsets:
  assumes "firstBufferIdx r < endBufferIdx r"
  shows "(\<forall>i. Some i \<in> set (rows s) \<and> Some i \<in> set (rows (computeRenderedRowOffsets s r True)) \<and>
              \<not> (firstBufferIdx r \<le> i \<and> i < endBufferIdx r) \<longrightarrow>
            rowHeights (computeRenderedRowOffsets s r True) i = Some (lookup (rowHeights s) i)) \<and>
         (\<forall>i. Some i \<notin> set (rows (computeRenderedRowOffsets s r True)) \<and>
              \<not> (firstBufferIdx r \<le> i \<and> i < endBufferIdx r) \<longrightarrow>
            rowHeights (computeRenderedRowOffsets s r True) i = None)"
proof -
  obtain bs' bm' cache' where w: "walkRows True (storedHeights s) r (firstBufferIdx r)
       (bufferSet s) (rows s) Map.empty (Num (rowOffsets s (firstBufferIdx r))) = (bs', bm', cache')"
    by (metis prod_cases3)
  have rows': "rows (computeRenderedRowOffsets s r True) = bm'"
    using assms w by (simp add: computeRenderedRowOffsets_def Let_def)
  have rh: "rowHeights (computeRenderedRowOffsets s r True) =
      carryOver (rowHeights s)
        (filter (\<lambda>rowIdx. \<not> inRange rowIdx (firstBufferIdx r) (endBufferIdx r)) (rowsOf bm')) cache'"
    using assms w by (simp add: computeRenderedRowOffsets_def Let_def)
  have inr: "inRange i (firstBufferIdx r) (endBufferIdx r) \<longleftrightarrow>
      firstBufferIdx r \<le> i \<and> i < endBufferIdx r" for i
    using assms by (simp add: inRange_def)
  have out: "\<not> (firstBufferIdx r \<le> i \<and> i < endBufferIdx r) \<Longrightarrow> cache' i = None" for i
    using walkRows_cache_outside [OF w, of i] by auto
  show ?thesis
    unfolding rows' rh by (auto simp add: carryOver_apply set_rowsOf inr out)
qed

theorem viewportOnly_carries_offsets_witness:
  "rowHeights (computeRenderedRowOffsets
      ((tableState 10 (\<lambda>i. 10) (\<lambda>i. 10 * i))
         \<lparr>bufferSet := [7], rows := [Some 7], rowHeights := [7 \<mapsto> Num 70]\<rparr>)
      \<lparr>endBufferIdx = 3, endViewportIdx = 2, firstBufferIdx = 0, firstViewportIdx = 1\<rparr> True) 7
     = Some (Num 70) \<and>
   rowHeights (computeRenderedRowOffsets
      ((tableState 10 (\<lambda>i. 10) (\<lambda>i. 10 * i))
         \<lparr>bufferSet := [7], rows := [Some 7], rowHeights := [7 \<mapsto> Num 70]\<rparr>)
      \<lparr>endBufferIdx = 3, endViewportIdx = 2, firstBufferIdx = 0, firstViewportIdx = 1\<rparr> True) 8
     = None \<and>
   rows (computeRenderedRowOffsets
      ((tableState 10 (\<lambda>i. 10) (\<lambda>i. 10 * i))
         \<lparr>bufferSet := [7], rows := [Some 7], rowHeights := [7 \<mapsto> Num 70]\<rparr>)
      \<lparr>endBufferIdx = 3, endViewportIdx = 2, firstBufferIdx = 0, firstViewportIdx = 1\<rparr> True)
     = [Some 7, Some 1]"
proof -
  let ?s = "(tableState 10 (\<lambda>i. 10) (\<lambda>i. 10 * i))
         \<lparr>bufferSet := [7], rows := [Some 7], rowHeights := [7 \<mapsto> Num 70]\<rparr>"
  let ?r = "\<lparr>endBufferIdx = 3, endViewportIdx = 2, firstBufferIdx = 0, firstViewportIdx = 1\<rparr>"
  have rows': "rows (computeRenderedRowOffsets ?s ?r True) = [Some 7, Some 1]"
    by (simp add: computeRenderedRowOffsets_def tableState_def Let_def walkRows.simps
          addRowToBuffer_def getSize_def getNewPositionForValue_def set_at_def)
  have ne: "firstBufferIdx ?r < endBufferIdx ?r" by simp
  from viewportOnly_carries_offsets [OF ne, of ?s]
  have "rowHeights (computeRenderedRowOffsets ?s ?r True) 7 = Some (lookup (rowHeights ?s) 7)"
    and "rowHeights (computeRenderedRowOffsets ?s ?r True) 8 = None"
    unfolding rows' by (simp_all add: tableState_def)
  then show ?thesis using rows' by (simp add: lookup_def tableState_def)
qed

subsection \<open>C6: no rows above the viewport when the content fits\<close>

lemma calculateRenderedRowRange_lastIndex:
  "\<exists>r s'. calculateRenderedRowRange c s
      \<lparr>firstIndex = fi, firstOffset = fo, lastIndex = Some l, jumpRequested = j\<rparr> = Some (r, s')"
  by (simp add: calculateRenderedRowRange_def Let_def split: prod.splits)

lemma computeRenderedRowOffsets_firstRowOffset:
  "firstRowOffset (computeRenderedRowOffsets s r v) = firstRowOffset s"
  by (simp add: computeRenderedRowOffsets_def Let_def split: prod.splits)

text \<open>
  C6. Whenever \<open>maxScrollY\<close> (\<open>scrollContentHeight - bodyHeight\<close>, read after the first
  resolution) is 0 and the first resolution yields \<open>firstViewportIdx > 0\<close>, the range is
  resolved again with the anchor \<open>{firstOffset: 0, lastIndex: rowsCount - 1}\<close>, that second
  range is the one in force, and the state returned has \<open>firstRowOffset = 0\<close>.
\<close>

theorem content_fits_reresolved:
  assumes "calculateRenderedRowRange c s a = Some (r1, s1)"
    and "scrollContentHeight s1 - tableHeightsSelector c s1 = 0"
    and "0 < firstViewportIdx r1"
  shows "\<exists>r2 s2 s'.
     calculateRenderedRowRange c s1
       \<lparr>firstIndex = None, firstOffset = 0, lastIndex = Some (rowsCount (rowSettings s1) - 1),
        jumpRequested = None\<rparr> = Some (r2, s2) \<and>
     resolveRowRange c s a =
       Some (r2, s2\<lparr>firstRowOffset := Num 0\<rparr>, rowsCount (rowSettings s1), 0) \<and>
     computeRenderedRows c s a = Some s' \<and> firstRowOffset s' = Num 0"
proof -
  obtain r2 s2 where re: "calculateRenderedRowRange c s1
       \<lparr>firstIndex = None, firstOffset = 0, lastIndex = Some (rowsCount (rowSettings s1) - 1),
        jumpRequested = None\<rparr> = Some (r2, s2)"
    using calculateRenderedRowRange_lastIndex by blast
  have res: "resolveRowRange c s a =
       Some (r2, s2\<lparr>firstRowOffset := Num 0\<rparr>, rowsCount (rowSettings s1), 0)"
    using assms re by (simp add: resolveRowRange_def Let_def)
  show ?thesis
    using re res
    by (simp add: computeRenderedRows_def Let_def computeRenderedRowOffsets_firstRowOffset)
qed

theorem content_fits_reresolved_witness:
  "(\<exists>r1 s1. calculateRenderedRowRange (measuredCollab (\<lambda>i. 10) 0 20 20 20)
        (tableState 2 (\<lambda>i. 10) (\<lambda>i. 10 * i))
        \<lparr>firstIndex = Some 1, firstOffset = 0, lastIndex = None, jumpRequested = None\<rparr>
        = Some (r1, s1) \<and>
      scrollContentHeight s1 - tableHeightsSelector (measuredCollab (\<lambda>i. 10) 0 20 20 20) s1 = 0 \<and>
      0 < firstViewportIdx r1) \<and>
   (\<exists>s'. computeRenderedRows (measuredCollab (\<lambda>i. 10) 0 20 20 20)
        (tableState 2 (\<lambda>i. 10) (\<lambda>i. 10 * i))
        \<lparr>firstIndex = Some 1, firstOffset = 0, lastIndex = None, jumpRequested = None\<rparr> = Some s' \<and>
      firstRowOffset s' = Num 0)"
proof -
  let ?c = "measuredCollab (\<lambda>i. 10) 0 20 20 20"
  let ?s = "tableState 2 (\<lambda>i. 10) (\<lambda>i. 10 * i)"
  let ?a = "\<lparr>firstIndex = Some 1, firstOffset = 0, lastIndex = None, jumpRequested = None\<rparr>"
  obtain r1 s1 where first: "calculateRenderedRowRange ?c ?s ?a = Some (r1, s1)"
    and fits: "scrollContentHeight s1 - tableHeightsSelector ?c s1 = 0"
    and above: "0 < firstViewportIdx r1"
    by (simp add: calculateRenderedRowRange_def measuredCollab_def tableState_def
          idx_ge_def Let_def walkViewport.simps touchRows.simps)
  from content_fits_reresolved [OF first fits above] first fits above
  show ?thesis by blast
qed

subsection \<open>C7: when a jump is reported\<close>

lemma computeRenderedRows_None:
  "computeRenderedRows c s a = None \<longleftrightarrow>
     rowsCount (rowSettings s) \<noteq> 0 \<and> firstIndex a = None \<and> lastIndex a = None"
proof -
  have calc: "calculateRenderedRowRange c s a = None \<longleftrightarrow>
     rowsCount (rowSettings s) \<noteq> 0 \<and> firstIndex a = None \<and> lastIndex a = None"
    by (auto simp add: calculateRenderedRowRange_def Let_def idx_ge_def
          split: prod.splits option.splits)
  have res: "resolveRowRange c s a = None \<longleftrightarrow> calculateRenderedRowRange c s a = None"
    using calculateRenderedRowRange_lastIndex
    apply (auto simp add: resolveRowRange_def Let_def split: option.splits prod.splits)
    by (metis option.distinct(1))
  show ?thesis
    using calc res by (auto simp add: computeRenderedRows_def Let_def split: option.splits)
qed

text \<open>
  C7. The \<open>scrollJumpedY\<close> that \<open>computeRenderedRows\<close> returns is true exactly when the
  anchor's \<open>scrollJumpedY\<close> is strictly equal to \<open>true\<close> and \<open>scrollY\<close> before clamping
  differs (\<open>!==\<close>) from the \<open>scrollY\<close> of the input state; in particular it is never true
  for an anchor that does not request a jump. (\<open>computeRenderedRows\<close> and
  \<open>scrollYBeforeClamp\<close> are \<open>None\<close> together, for the anchor that names no row.)
\<close>

theorem scrollJumpedY_iff:
  "map_option scrollJumpedY (computeRenderedRows c s a) =
     map_option (\<lambda>y. jumpRequested a = Some True \<and> \<not> js_strict_eq y (scrollY s))
       (scrollYBeforeClamp c s a) \<and>
   (jumpRequested a \<noteq> Some True \<longrightarrow>
      map_option scrollJumpedY (computeRenderedRows c s a) \<noteq> Some True)"
  by (auto simp add: computeRenderedRows_def scrollYBeforeClamp_def Let_def split: option.splits)

theorem scrollJumpedY_iff_witness:
  "jumpRequested \<lparr>firstIndex = Some 2, firstOffset = 0, lastIndex = None, jumpRequested = None\<rparr>
     \<noteq> Some True \<and>
   (\<exists>s'. computeRenderedRows (measuredCollab (\<lambda>i. 10) 0 30 30 30)
        (tableState 10 (\<lambda>i. 10) (\<lambda>i. 10 * i))
        \<lparr>firstIndex = Some 2, firstOffset = 0, lastIndex = None, jumpRequested = None\<rparr> = Some s' \<and>
      scrollY s' = Num 20 \<and> scrollY (tableState 10 (\<lambda>i. 10) (\<lambda>i. 10 * i)) = Num 0 \<and>
      \<not> scrollJumpedY s')"
proof -
  let ?c = "measuredCollab (\<lambda>i. 10) 0 30 30 30"
  let ?s = "tableState 10 (\<lambda>i. 10) (\<lambda>i. 10 * i)"
  let ?a = "\<lparr>firstIndex = Some 2, firstOffset = 0, lastIndex = None, jumpRequested = None\<rparr>"
  obtain s' where run: "computeRenderedRows ?c ?s ?a = Some s'"
    using computeRenderedRows_None [of ?c ?s ?a] by auto
  have pos: "scrollY s' = Num 20"
    using run
    by (simp add: computeRenderedRows_def resolveRowRange_def calculateRenderedRowRange_def
          computeRenderedRowOffsets_def resolvedScrollY_def measuredCollab_def tableState_def
          idx_ge_def Let_def walkViewport.simps touchRows.simps walkRows.simps lookup_def
          split: prod.splits)
      (auto simp add: walkRows.simps)
  from scrollJumpedY_iff [where a = ?a and c = ?c and s = ?s] run have "\<not> scrollJumpedY s'" by simp
  with run pos show ?thesis by (simp add: tableState_def)
qed

subsection \<open>C8: the two modules agree when the table is not scrolling\<close>

lemma addRowToBuffer_earlier_eq:
  "addRowToBuffer_earlier rowIdx lo hi bs m = addRowToBuffer rowIdx bs lo hi m"
  by (simp add: addRowToBuffer_earlier_def addRowToBuffer_def)

lemma walkRows_earlier_eq:
  "walkRows_earlier storedH r rowIdx bs bm cache ro = walkRows False storedH r rowIdx bs bm cache ro"
proof (induction storedH r rowIdx bs bm cache ro rule: walkRows_earlier.induct)
  case (1 storedH r rowIdx bs bm cache ro)
  show ?case
  proof (cases "rowIdx < endBufferIdx r")
    case True
    then show ?thesis
      using "1.IH"
      by (simp add: walkRows_earlier.simps [of storedH r rowIdx]
            walkRows.simps [of False storedH r rowIdx] addRowToBuffer_earlier_eq fun_upd_def)
  next
    case False
    then show ?thesis
      by (simp add: walkRows_earlier.simps [of storedH r rowIdx]
            walkRows.simps [of False storedH r rowIdx])
  qed
qed

lemma computeRenderedRowOffsets_earlier_eq:
  "computeRenderedRowOffsets_earlier s r = computeRenderedRowOffsets s r False"
  by (simp add: computeRenderedRowOffsets_earlier_def computeRenderedRowOffsets_def
        walkRows_earlier_eq)

lemma walkViewport_rowSettings:
  "keepsRowSettings c \<Longrightarrow> walkViewport c b n maxH s rowIdx endIdx tot = (e, t, s') \<Longrightarrow>
   rowSettings s' = rowSettings s"
proof (induction c b n maxH s rowIdx endIdx tot rule: walkViewport.induct)
  case (1 c b n maxH s rowIdx endIdx tot)
  show ?case
  proof (cases "rowIdx < n \<and> 0 \<le> rowIdx \<and> tot < maxH")
    case True
    with "1.prems" have "walkViewport c b n maxH (snd (updateRowHeight c s rowIdx))
          (rowIdx + (if b then - 1 else 1)) rowIdx (tot + fst (updateRowHeight c s rowIdx))
          = (e, t, s')"
      by (simp add: walkViewport.simps [of c b n maxH s rowIdx])
    with "1.IH" True "1.prems"(1)
    have "rowSettings s' = rowSettings (snd (updateRowHeight c s rowIdx))" by simp
    with "1.prems"(1) show ?thesis by (simp add: keepsRowSettings_def)
  next
    case False
    with "1.prems" show ?thesis
      by (simp add: walkViewport.simps [of c b n maxH s rowIdx])
  qed
qed

lemma touchRows_rowSettings:
  "keepsRowSettings c \<Longrightarrow> rowSettings (touchRows c s lo hi) = rowSettings s"
proof (induction c s lo hi rule: touchRows.induct)
  case (1 c s rowIdx hi)
  show ?case
  proof (cases "rowIdx < hi")
    case True
    with "1.IH" "1.prems" show ?thesis
      by (simp add: touchRows.simps [of c s rowIdx hi] keepsRowSettings_def)
  next
    case False
    then show ?thesis by (simp add: touchRows.simps [of c s rowIdx hi])
  qed
qed

lemma calculateRenderedRowRange_rowSettings:
  assumes "keepsRowSettings c" "calculateRenderedRowRange c s a = Some (r, s')"
  shows "rowSettings s' = rowSettings s"
  using assms
  by (auto simp add: calculateRenderedRowRange_def Let_def touchRows_rowSettings
        split: if_splits option.splits prod.splits dest: walkViewport_rowSettings)

text \<open>
  C8. For every input state with \<open>scrolling\<close> false and \<open>rowsCount > 0\<close>, the earlier
  \<open>computeRenderedRows\<close> and the later one return the same state, for the same
  collaborators. Both read \<open>rowsCount\<close> again after the first resolution of the range; the
  collaborator \<open>updateRowHeight\<close> is taken not to change \<open>rowSettings\<close>.
\<close>

theorem earlier_module_agrees:
  assumes "\<not> scrolling s" "0 < rowsCount (rowSettings s)" "keepsRowSettings c"
  shows "computeRenderedRows_earlier c s a = computeRenderedRows c s a"
proof (cases "calculateRenderedRowRange c s a")
  case None
  then show ?thesis
    by (simp add: computeRenderedRows_earlier_def computeRenderedRows_def resolveRowRange_def)
next
  case (Some p)
  obtain r1 s1 where p: "p = (r1, s1)" by (cases p)
  have n: "0 < rowsCount (rowSettings s1)"
    using calculateRenderedRowRange_rowSettings [OF assms(3)] Some p assms(2) by simp
  show ?thesis
    using Some p n assms(1)
    by (simp add: computeRenderedRows_earlier_def computeRenderedRows_def resolveRowRange_def
          Let_def computeRenderedRowOffsets_earlier_eq resolvedScrollY_def
          split: option.splits prod.splits)
qed

theorem earlier_module_agrees_witness:
  "\<not> scrolling (tableState 10 (\<lambda>i. 10) (\<lambda>i. 10 * i)) \<and>
   0 < rowsCount (rowSettings (tableState 10 (\<lambda>i. 10) (\<lambda>i. 10 * i))) \<and>
   keepsRowSettings (measuredCollab (\<lambda>i. 10) 1 30 30 30) \<and>
   computeRenderedRows_earlier (measuredCollab (\<lambda>i. 10) 1 30 30 30)
      (tableState 10 (\<lambda>i. 10) (\<lambda>i. 10 * i))
      \<lparr>firstIndex = Some 2, firstOffset = 0, lastIndex = None, jumpRequested = Some True\<rparr> =
   computeRenderedRows (measuredCollab (\<lambda>i. 10) 1 30 30 30)
      (tableState 10 (\<lambda>i. 10) (\<lambda>i. 10 * i))
      \<lparr>firstIndex = Some 2, firstOffset = 0, lastIndex = None, jumpRequested = Some True\<rparr> \<and>
   computeRenderedRows (measuredCollab (\<lambda>i. 10) 1 30 30 30)
      (tableState 10 (\<lambda>i. 10) (\<lambda>i. 10 * i))
      \<lparr>firstIndex = Some 2, firstOffset = 0, lastIndex = None, jumpRequested = Some True\<rparr> \<noteq> None"
proof -
  have k: "keepsRowSettings (measuredCollab (\<lambda>i. 10) 1 30 30 30)"
    by (simp add: keepsRowSettings_def measuredCollab_def)
  have s: "\<not> scrolling (tableState 10 (\<lambda>i. 10) (\<lambda>i. 10 * i))"
    and n: "0 < rowsCount (rowSettings (tableState 10 (\<lambda>i. 10) (\<lambda>i. 10 * i)))"
    by (simp_all add: tableState_def)
  from earlier_module_agrees [OF s n k] s n k show ?thesis
    by (simp add: computeRenderedRows_None)
qed

subsection \<open>C4: the rows of a full recompute\<close>

lemma getValuePosition_Some:
  "getValuePosition bs v = Some p \<Longrightarrow> p < length bs \<and> bs ! p = v"
  by (induction bs arbitrary: p) (auto split: if_splits)

lemma getValuePosition_None: "getValuePosition bs v = None \<longleftrightarrow> v \<notin> set bs"
  by (induction bs) auto

lemma getValuePosition_distinct:
  "distinct bs \<Longrightarrow> p < length bs \<Longrightarrow> getValuePosition bs (bs ! p) = Some p"
proof (induction bs arbitrary: p)
  case Nil
  then show ?case by simp
next
  case (Cons x xs)
  then show ?case by (cases p) auto
qed

lemma further_asym: "further lo hi a b \<Longrightarrow> \<not> further lo hi b a"
  by (auto simp: further_def)

lemma further_trans: "further lo hi a b \<Longrightarrow> further lo hi b c \<Longrightarrow> further lo hi a c"
  by (auto simp: further_def)

lemma further_total: "\<not> further lo hi a b \<Longrightarrow> a = b \<or> further lo hi b a"
  by (auto simp: further_def)

lemma furthestOutside_Some:
  "furthestOutside lo hi bs = Some y \<Longrightarrow> y \<in> set bs \<and> \<not> (lo \<le> y \<and> y \<le> hi)"
  by (induction bs arbitrary: y) (auto split: if_splits option.splits)

lemma furthestOutside_max:
  "furthestOutside lo hi bs = Some y \<Longrightarrow> x \<in> set bs \<Longrightarrow> \<not> (lo \<le> x \<and> x \<le> hi) \<Longrightarrow>
   x = y \<or> further lo hi y x"
proof (induction bs arbitrary: y)
  case Nil
  then show ?case by simp
next
  case (Cons b bs)
  show ?case
  proof (cases "lo \<le> b \<and> b \<le> hi")
    case True
    with Cons show ?thesis by auto
  next
    case False
    show ?thesis
    proof (cases "furthestOutside lo hi bs")
      case None
      then have "\<forall>z\<in>set bs. lo \<le> z \<and> z \<le> hi"
        by (induction bs) (auto split: if_splits option.splits)
      with Cons.prems False None show ?thesis by auto
    next
      case (Some y')
      show ?thesis
      proof (cases "further lo hi y' b")
        case True
        with Cons.prems False Some have y: "y = y'" by simp
        show ?thesis
        proof (cases "x = b")
          case True
          with \<open>further lo hi y' b\<close> y show ?thesis by simp
        next
          case False
          with Cons.prems have "x \<in> set bs" by simp
          from Cons.IH [OF Some this Cons.prems(3)] y show ?thesis by simp
        qed
      next
        case nf: False
        with Cons.prems False Some have y: "y = b" by simp
        show ?thesis
        proof (cases "x = b")
          case True
          with y show ?thesis by simp
        next
          case False
          with Cons.prems have "x \<in> set bs" by simp
          from Cons.IH [OF Some this Cons.prems(3)] have "x = y' \<or> further lo hi y' x" .
          moreover from further_total [OF nf] have "y' = b \<or> further lo hi b y'" .
          ultimately show ?thesis using y nf False by (auto dest: further_trans)
        qed
      qed
    qed
  qed
qed

lemma furthestOutside_None:
  "furthestOutside lo hi bs = None \<longleftrightarrow> (\<forall>x\<in>set bs. lo \<le> x \<and> x \<le> hi)"
  by (induction bs) (auto split: if_splits option.splits)

lemma addRowToBuffer_cases:
  assumes "addRowToBuffer rowIdx bs lo hi m = (p, bs')"
  shows "(getValuePosition bs rowIdx = Some p \<and> bs' = bs) \<or>
         (rowIdx \<notin> set bs \<and> p = length bs \<and> bs' = bs @ [rowIdx]) \<or>
         (rowIdx \<notin> set bs \<and> m \<le> int (length bs) \<and>
            (\<exists>victim. furthestOutside lo (hi - 1) bs = Some victim \<and>
               getValuePosition bs victim = Some p \<and> bs' = bs[p := rowIdx]))"
  using assms
  by (auto simp add: addRowToBuffer_def replaceFurthestValuePosition_def getSize_def
        getNewPositionForValue_def Let_def getValuePosition_None
        split: if_splits option.splits prod.splits)

lemma length_set_at: "length (set_at xs p v) = max (length xs) (Suc p)"
  by (auto simp: set_at_def)

lemma nth_set_at:
  "q < length (set_at xs p v) \<Longrightarrow>
   set_at xs p v ! q = (if q = p then Some v else if q < length xs then xs ! q else None)"
  by (auto simp: set_at_def nth_append)

lemma outside_further:
  assumes "v < fb \<or> eb \<le> v" "fb \<le> w" "w < eb" "w < fv \<or> ev \<le> w" "fb \<le> fv" "ev \<le> eb"
    and "v < fb \<longrightarrow> eb - ev \<le> fv - v" "eb \<le> v \<longrightarrow> fv - fb < v - ev + 1"
  shows "further fv (ev - 1) v w"
  using assms by (auto simp: further_def distance_def)

lemma pigeonhole:
  assumes "distinct bs" "set bs \<subseteq> {fb..<eb} - {rowIdx}" "fb \<le> rowIdx" "rowIdx < eb"
  shows "int (length bs) < eb - fb"
proof -
  have "card (set bs) \<le> card ({fb..<eb} - {rowIdx})"
    using assms(2) by (intro card_mono) auto
  also have "\<dots> = card {fb..<eb} - 1" using assms(3,4) by simp
  finally have "length bs \<le> nat (eb - fb) - 1" using assms(1) by (simp add: distinct_card)
  with assms(3,4) show ?thesis by auto
qed

lemma victim_outside_range:
  assumes d: "distinct bs" and nin: "rowIdx \<notin> set bs"
    and ri: "firstBufferIdx r \<le> rowIdx" "rowIdx < endBufferIdx r"
    and vp: "firstBufferIdx r \<le> firstViewportIdx r" "endViewportIdx r \<le> endBufferIdx r"
    and far: "outsideRowsFurther r bs"
    and full: "endBufferIdx r - firstBufferIdx r \<le> int (length bs)"
    and vic: "furthestOutside (firstViewportIdx r) (endViewportIdx r - 1) bs = Some victim"
  shows "victim < firstBufferIdx r \<or> endBufferIdx r \<le> victim"
proof (rule ccontr)
  assume "\<not> ?thesis"
  then have vin: "firstBufferIdx r \<le> victim" "victim < endBufferIdx r" by auto
  from furthestOutside_Some [OF vic]
  have vout: "victim < firstViewportIdx r \<or> endViewportIdx r \<le> victim" by auto
  have "\<not> set bs \<subseteq> {firstBufferIdx r..<endBufferIdx r} - {rowIdx}"
    using pigeonhole [OF d _ ri] full by auto
  with nin obtain v where v: "v \<in> set bs" "v < firstBufferIdx r \<or> endBufferIdx r \<le> v"
    by force
  from far v(1) have g: "v < firstBufferIdx r \<longrightarrow>
           endBufferIdx r - endViewportIdx r \<le> firstViewportIdx r - v"
       "endBufferIdx r \<le> v \<longrightarrow>
           firstViewportIdx r - firstBufferIdx r < v - endViewportIdx r + 1"
    by (auto simp: outsideRowsFurther_def)
  have fvw: "further (firstViewportIdx r) (endViewportIdx r - 1) v victim"
    by (rule outside_further [OF v(2) vin vout vp g])
  have "\<not> (firstViewportIdx r \<le> v \<and> v \<le> endViewportIdx r - 1)"
    using v(2) vp by auto
  from furthestOutside_max [OF vic v(1) this] v(2) vin
  have "further (firstViewportIdx r) (endViewportIdx r - 1) victim v" by auto
  with fvw show False by (auto dest: further_asym)
qed

lemma step_full:
  assumes sa: "slotsAgree (firstBufferIdx r) rowIdx bs bm"
    and d: "distinct bs"
    and ri: "firstBufferIdx r \<le> rowIdx" "rowIdx < endBufferIdx r"
    and vp: "firstBufferIdx r \<le> firstViewportIdx r" "endViewportIdx r \<le> endBufferIdx r"
    and far: "outsideRowsFurther r bs"
    and add: "addRowToBuffer rowIdx bs (firstViewportIdx r) (endViewportIdx r)
                (endBufferIdx r - firstBufferIdx r) = (p, bs')"
  shows "slotsAgree (firstBufferIdx r) (rowIdx + 1) bs' (set_at bm p rowIdx) \<and> distinct bs' \<and>
         outsideRowsFurther r bs' \<and> getValuePosition bs' rowIdx = Some p \<and>
         length bs \<le> length bs' \<and>
         (\<forall>q. q < length bs \<and> firstBufferIdx r \<le> bs ! q \<and> bs ! q < rowIdx \<longrightarrow> bs' ! q = bs ! q)"
proof -
  from sa have I2: "\<And>i. firstBufferIdx r \<le> i \<Longrightarrow> i < rowIdx \<Longrightarrow>
      \<exists>q. q < length bs \<and> q < length bm \<and> bs ! q = i \<and> bm ! q = Some i"
    and I3: "\<And>q v. q < length bm \<Longrightarrow> bm ! q = Some v \<Longrightarrow>
      firstBufferIdx r \<le> v \<and> v < rowIdx \<and> q < length bs \<and> bs ! q = v"
    by (auto simp: slotsAgree_def)
  \<comment> \<open>what the slot p held before\<close>
  have key: "p < length bs' \<and> bs' ! p = rowIdx \<and> distinct bs' \<and> length bs \<le> length bs' \<and>
      set bs' \<subseteq> insert rowIdx (set bs) \<and>
      (\<forall>q. q < length bs \<and> q \<noteq> p \<longrightarrow> bs' ! q = bs ! q) \<and>
      (p < length bs \<longrightarrow> bs ! p = rowIdx \<or> bs ! p < firstBufferIdx r \<or> endBufferIdx r \<le> bs ! p)"
    using addRowToBuffer_cases [OF add]
  proof (elim disjE conjE exE)
    assume a: "getValuePosition bs rowIdx = Some p" "bs' = bs"
    with getValuePosition_Some [OF a(1)] d show ?thesis by auto
  next
    assume a: "rowIdx \<notin> set bs" "p = length bs" "bs' = bs @ [rowIdx]"
    with d show ?thesis by (auto simp: nth_append)
  next
    fix victim
    assume a: "rowIdx \<notin> set bs" "endBufferIdx r - firstBufferIdx r \<le> int (length bs)"
      "furthestOutside (firstViewportIdx r) (endViewportIdx r - 1) bs = Some victim"
      "getValuePosition bs victim = Some p" "bs' = bs[p := rowIdx]"
    from getValuePosition_Some [OF a(4)] have p: "p < length bs" "bs ! p = victim" by auto
    from victim_outside_range [OF d a(1) ri vp far a(2) a(3)]
    have vo: "victim < firstBufferIdx r \<or> endBufferIdx r \<le> victim" .
    have "distinct bs'"
      using d a(1) p(1) unfolding a(5) by (simp add: distinct_list_update)
    moreover have "set bs' \<subseteq> insert rowIdx (set bs)"
      unfolding a(5) by (rule set_update_subset_insert)
    ultimately show ?thesis using p vo unfolding a(5) by auto
  qed
  then have p: "p < length bs'" "bs' ! p = rowIdx" and d': "distinct bs'"
    and len: "length bs \<le> length bs'" and sub: "set bs' \<subseteq> insert rowIdx (set bs)"
    and same: "\<And>q. q < length bs \<Longrightarrow> q \<noteq> p \<Longrightarrow> bs' ! q = bs ! q"
    and old: "p < length bs \<Longrightarrow> bs ! p = rowIdx \<or> bs ! p < firstBufferIdx r \<or> endBufferIdx r \<le> bs ! p"
    by auto
  \<comment> \<open>a slot of a row walked earlier is not p\<close>
  have notp: "q \<noteq> p" if "q < length bs" "firstBufferIdx r \<le> bs ! q" "bs ! q < rowIdx" for q
    using that old ri by auto
  have far': "outsideRowsFurther r bs'"
    using far sub ri by (auto simp: outsideRowsFurther_def)
  have pos: "getValuePosition bs' rowIdx = Some p"
    using getValuePosition_distinct [OF d' p(1)] p(2) by simp
  have A: "\<exists>q. q < length bs' \<and> q < length (set_at bm p rowIdx) \<and> bs' ! q = i \<and>
             set_at bm p rowIdx ! q = Some i"
    if "firstBufferIdx r \<le> i" "i < rowIdx + 1" for i
  proof (cases "i = rowIdx")
    case True
    with p show ?thesis by (intro exI [of _ p]) (simp add: length_set_at nth_set_at)
  next
    case False
    with that have "i < rowIdx" by simp
    from I2 [OF that(1) this] obtain q where q: "q < length bs" "q < length bm" "bs ! q = i"
      "bm ! q = Some i" by auto
    with notp [of q] that(1) \<open>i < rowIdx\<close> have "q \<noteq> p" by simp
    with q same [of q] len show ?thesis
      by (intro exI [of _ q]) (simp add: length_set_at nth_set_at)
  qed
  have B: "firstBufferIdx r \<le> v \<and> v < rowIdx + 1 \<and> q < length bs' \<and> bs' ! q = v"
    if "q < length (set_at bm p rowIdx)" "set_at bm p rowIdx ! q = Some v" for q v
  proof (cases "q = p")
    case True
    with that p ri show ?thesis by (simp add: nth_set_at)
  next
    case False
    with that have q: "q < length bm" "bm ! q = Some v"
      by (auto simp: nth_set_at split: if_splits)
    from I3 [OF q] have "firstBufferIdx r \<le> v" "v < rowIdx" "q < length bs" "bs ! q = v" by auto
    with same [of q] False len show ?thesis by simp
  qed
  have C: "bs' ! q = bs ! q" if "q < length bs" "firstBufferIdx r \<le> bs ! q" "bs ! q < rowIdx" for q
    using same [of q] notp [of q] that by simp
  show ?thesis
    using A B C d' far' pos len unfolding slotsAgree_def by blast
qed

lemma walkRows_full:
  assumes "walkRows False storedH r rowIdx bs bm cache ro = (bs', bm', cache')"
    and "firstBufferIdx r \<le> rowIdx" "rowIdx \<le> endBufferIdx r"
    and "slotsAgree (firstBufferIdx r) rowIdx bs bm" "distinct bs"
    and "firstBufferIdx r \<le> firstViewportIdx r" "endViewportIdx r \<le> endBufferIdx r"
    and "outsideRowsFurther r bs"
  shows "slotsAgree (firstBufferIdx r) (endBufferIdx r) bs' bm' \<and> distinct bs' \<and>
         outsideRowsFurther r bs'"
  using assms
proof (induction "False" storedH r rowIdx bs bm cache ro rule: walkRows.induct)
  case (1 storedH r rowIdx bs bm cache ro)
  show ?case
  proof (cases "rowIdx < endBufferIdx r")
    case True
    obtain p bs1 where add: "addRowToBuffer rowIdx bs (firstViewportIdx r) (endViewportIdx r)
                (endBufferIdx r - firstBufferIdx r) = (p, bs1)"
      by (cases "addRowToBuffer rowIdx bs (firstViewportIdx r) (endViewportIdx r)
                (endBufferIdx r - firstBufferIdx r)")
    from step_full [OF "1.prems"(4) "1.prems"(5) "1.prems"(2) True "1.prems"(6) "1.prems"(7)
        "1.prems"(8) add]
    have st: "slotsAgree (firstBufferIdx r) (rowIdx + 1) bs1 (set_at bm p rowIdx)"
      "distinct bs1" "outsideRowsFurther r bs1" by blast+
    have run: "walkRows False storedH r (rowIdx + 1) bs1 (set_at bm p rowIdx)
        (cache(rowIdx \<mapsto> ro)) (js_add ro (storedH rowIdx)) = (bs', bm', cache')"
      using "1.prems"(1) True add by (simp add: walkRows.simps [of _ storedH r rowIdx])
    have b: "firstBufferIdx r \<le> rowIdx + 1" "rowIdx + 1 \<le> endBufferIdx r"
      using "1.prems"(2) True by auto
    have nv: "\<not> (False \<and> (rowIdx < firstViewportIdx r \<or> endViewportIdx r \<le> rowIdx))" by simp
    note ih = "1.hyps"(2) [OF True nv, unfolded add fst_conv snd_conv]
    show ?thesis
      by (rule ih [OF run b st(1) st(2) "1.prems"(6) "1.prems"(7) st(3)])
  next
    case False
    with "1.prems" have "rowIdx = endBufferIdx r" "bs' = bs" "bm' = bm"
      by (auto simp add: walkRows.simps [of _ storedH r rowIdx])
    with "1.prems" show ?thesis by simp
  qed
qed

lemma slotsAgree_set:
  assumes "slotsAgree lo hi bs bm"
  shows "{i. Some i \<in> set bm} = {lo..<hi}"
proof (intro set_eqI iffI)
  fix i assume "i \<in> {i. Some i \<in> set bm}"
  then obtain p where "p < length bm" "bm ! p = Some i" by (auto simp: in_set_conv_nth)
  with assms show "i \<in> {lo..<hi}" by (auto simp: slotsAgree_def)
next
  fix i assume "i \<in> {lo..<hi}"
  then have "lo \<le> i \<and> i < hi" by simp
  with assms obtain p where "p < length bm" "bm ! p = Some i"
    unfolding slotsAgree_def by blast
  then show "i \<in> {i. Some i \<in> set bm}" by (auto simp: in_set_conv_nth)
qed

text \<open>
  C4, as stated, holds for no more than the allocator allows: the eviction protects the
  viewport only, so a row of the leading or trailing buffer that was walked earlier in the
  same pass can lose its slot to a later row. With the range \<open>[0, 5)\<close>, the viewport
  \<open>[3, 4)\<close> and an allocator that holds the rows 0, 1, 2, 3 and 5, row 4 finds the pool
  full; the furthest occupant outside the viewport is row 0 (distance 3, against 2 for
  row 5), so row 4 takes the slot of row 0 and the resulting array holds the rows
  1, 2, 3, 4 only.
\<close>

theorem full_recompute_loses_buffer_row:
  "firstBufferIdx \<lparr>endBufferIdx = 5, endViewportIdx = 4, firstBufferIdx = 0, firstViewportIdx = 3\<rparr>
     < endBufferIdx \<lparr>endBufferIdx = 5, endViewportIdx = 4, firstBufferIdx = 0, firstViewportIdx = 3\<rparr> \<and>
   rows (computeRenderedRowOffsets
      ((tableState 5 (\<lambda>i. 10) (\<lambda>i. 10 * i))\<lparr>bufferSet := [0, 1, 2, 3, 5]\<rparr>)
      \<lparr>endBufferIdx = 5, endViewportIdx = 4, firstBufferIdx = 0, firstViewportIdx = 3\<rparr> False)
     = [Some 4, Some 1, Some 2, Some 3] \<and>
   {i. Some i \<in> set (rows (computeRenderedRowOffsets
      ((tableState 5 (\<lambda>i. 10) (\<lambda>i. 10 * i))\<lparr>bufferSet := [0, 1, 2, 3, 5]\<rparr>)
      \<lparr>endBufferIdx = 5, endViewportIdx = 4, firstBufferIdx = 0, firstViewportIdx = 3\<rparr> False))}
     \<noteq> {0..<5}"
proof -
  have r: "rows (computeRenderedRowOffsets
      ((tableState 5 (\<lambda>i. 10) (\<lambda>i. 10 * i))\<lparr>bufferSet := [0, 1, 2, 3, 5]\<rparr>)
      \<lparr>endBufferIdx = 5, endViewportIdx = 4, firstBufferIdx = 0, firstViewportIdx = 3\<rparr> False)
     = [Some 4, Some 1, Some 2, Some 3]"
    by (simp add: computeRenderedRowOffsets_def tableState_def Let_def walkRows.simps
          addRowToBuffer_def getSize_def getNewPositionForValue_def set_at_def
          replaceFurthestValuePosition_def further_def distance_def)
  have "(0::int) \<in> {0..<5}" by simp
  moreover have "(0::int) \<notin> {i. Some i \<in> set [Some 4, Some 1, Some 2, Some (3::int)]}" by simp
  ultimately have "{i. Some i \<in> set [Some 4, Some 1, Some 2, Some (3::int)]} \<noteq> {0..<5}"
    by blast
  with r show ?thesis by simp
qed

text \<open>
  C4, amended: after a full-mode run of \<open>computeRenderedRowOffsets\<close> over a non-empty row
  range that contains its viewport, started with an allocator that holds each row index
  at most once and whose occupants outside \<open>[firstBufferIdx, endBufferIdx)\<close> are far enough
  from the viewport to be evicted before any row of the range (\<open>outsideRowsFurther\<close>),
  the set of row indices stored in the resulting \<open>rows\<close> array is exactly
  \<open>[firstBufferIdx, endBufferIdx)\<close>, and the array is freshly built: it does not depend on
  the previous \<open>rows\<close> array.
\<close>

theorem full_recompute_rows:
  assumes "distinct (bufferSet s)"
    and "firstBufferIdx r < endBufferIdx r"
    and "firstBufferIdx r \<le> firstViewportIdx r" "endViewportIdx r \<le> endBufferIdx r"
    and "outsideRowsFurther r (bufferSet s)"
  shows "{i. Some i \<in> set (rows (computeRenderedRowOffsets s r False))}
           = {firstBufferIdx r..<endBufferIdx r} \<and>
         rows (computeRenderedRowOffsets (s\<lparr>rows := xs\<rparr>) r False)
           = rows (computeRenderedRowOffsets s r False)"
proof -
  obtain bs' bm' cache' where w: "walkRows False (storedHeights s) r (firstBufferIdx r)
       (bufferSet s) [] Map.empty (Num (rowOffsets s (firstBufferIdx r))) = (bs', bm', cache')"
    by (metis prod_cases3)
  have rows': "rows (computeRenderedRowOffsets s r False) = bm'"
    using assms(2) w by (simp add: computeRenderedRowOffsets_def Let_def)
  have init: "slotsAgree (firstBufferIdx r) (firstBufferIdx r) (bufferSet s) []"
    by (simp add: slotsAgree_def)
  have "firstBufferIdx r \<le> firstBufferIdx r" "firstBufferIdx r \<le> endBufferIdx r"
    using assms(2) by simp_all
  from walkRows_full [OF w this init assms(1) assms(3) assms(4) assms(5)]
  have sa: "slotsAgree (firstBufferIdx r) (endBufferIdx r) bs' bm'" by (rule conjunct1)
  have one: "{i. Some i \<in> set (rows (computeRenderedRowOffsets s r False))}
           = {firstBufferIdx r..<endBufferIdx r}"
    unfolding rows' by (rule slotsAgree_set [OF sa])
  have two: "rows (computeRenderedRowOffsets (s\<lparr>rows := xs\<rparr>) r False)
           = rows (computeRenderedRowOffsets s r False)"
    using assms(2) w by (simp add: computeRenderedRowOffsets_def Let_def)
  show ?thesis by (rule conjI [OF one two])
qed

theorem full_recompute_rows_witness:
  "distinct [0, 1, 2, 3, 4 :: int] \<and>
   outsideRowsFurther
      \<lparr>endBufferIdx = 8, endViewportIdx = 6, firstBufferIdx = 3, firstViewportIdx = 5\<rparr>
      [0, 1, 2, 3, 4] \<and>
   rows (computeRenderedRowOffsets
      ((tableState 10 (\<lambda>i. 10) (\<lambda>i. 10 * i))\<lparr>bufferSet := [0, 1, 2, 3, 4]\<rparr>)
      \<lparr>endBufferIdx = 8, endViewportIdx = 6, firstBufferIdx = 3, firstViewportIdx = 5\<rparr> False)
     = [Some 5, Some 6, Some 7, Some 3, Some 4] \<and>
   {i. Some i \<in> set (rows (computeRenderedRowOffsets
      ((tableState 10 (\<lambda>i. 10) (\<lambda>i. 10 * i))\<lparr>bufferSet := [0, 1, 2, 3, 4]\<rparr>)
      \<lparr>endBufferIdx = 8, endViewportIdx = 6, firstBufferIdx = 3, firstViewportIdx = 5\<rparr> False))}
     = {3..<8}"
proof -
  let ?s = "(tableState 10 (\<lambda>i. 10) (\<lambda>i. 10 * i))\<lparr>bufferSet := [0, 1, 2, 3, 4]\<rparr>"
  let ?r = "\<lparr>endBufferIdx = 8, endViewportIdx = 6, firstBufferIdx = 3, firstViewportIdx = 5\<rparr>"
  have d: "distinct (bufferSet ?s)" by (simp add: tableState_def)
  have far: "outsideRowsFurther ?r (bufferSet ?s)"
    by (simp add: outsideRowsFurther_def tableState_def)
  have ne: "firstBufferIdx ?r < endBufferIdx ?r" and lo: "firstBufferIdx ?r \<le> firstViewportIdx ?r"
    and hi: "endViewportIdx ?r \<le> endBufferIdx ?r" by simp_all
  have r: "rows (computeRenderedRowOffsets ?s ?r False)
     = [Some 5, Some 6, Some 7, Some 3, Some 4]"
    by (simp add: computeRenderedRowOffsets_def tableState_def Let_def walkRows.simps
          addRowToBuffer_def getSize_def getNewPositionForValue_def set_at_def
          replaceFurthestValuePosition_def further_def distance_def)
  from full_recompute_rows [OF d ne lo hi far]
  have "{i. Some i \<in> set (rows (computeRenderedRowOffsets ?s ?r False))} = {3..<8}" by simp
  with r far show ?thesis by (simp add: tableState_def)
qed

subsection \<open>A table of ten rows, evaluated\<close>

lemma calculate_table10:
  assumes "rowSettings s = \<lparr>rowsCount = 10\<rparr>"
  shows "calculateRenderedRowRange (measuredCollab (\<lambda>i. 10) 0 30 30 30) s
      \<lparr>firstIndex = Some 2, firstOffset = 0, lastIndex = None, jumpRequested = j\<rparr> =
      Some (\<lparr>endBufferIdx = 5, endViewportIdx = 5, firstBufferIdx = 2, firstViewportIdx = 2\<rparr>,
            s\<lparr>firstRowIndex := 2, firstRowOffset := Num 0\<rparr>)"
  using assms
  by (simp add: calculateRenderedRowRange_def measuredCollab_def
        idx_ge_def Let_def walkViewport.simps touchRows.simps)

lemma resolve_table10:
  assumes "rowSettings s = \<lparr>rowsCount = 10\<rparr>" "scrollContentHeight s = 100"
  shows "resolveRowRange (measuredCollab (\<lambda>i. 10) 0 30 30 30) s
      \<lparr>firstIndex = Some 2, firstOffset = 0, lastIndex = None, jumpRequested = j\<rparr> =
      Some (\<lparr>endBufferIdx = 5, endViewportIdx = 5, firstBufferIdx = 2, firstViewportIdx = 2\<rparr>,
            s\<lparr>firstRowIndex := 2, firstRowOffset := Num 0\<rparr>, 10, 70)"
  using assms
  by (simp add: resolveRowRange_def calculate_table10 Let_def) (simp add: measuredCollab_def)

lemma walkRows_table10:
  "bs = [] \<or> bs = [2, 3, 4] \<Longrightarrow>
   walkRows False (\<lambda>i. if 0 \<le> i \<and> i < 10 then Num 10 else Undefined)
      \<lparr>endBufferIdx = 5, endViewportIdx = 5, firstBufferIdx = 2, firstViewportIdx = 2\<rparr>
      2 bs [] Map.empty (Num 20) =
   ([2, 3, 4], [Some 2, Some 3, Some 4], [2 \<mapsto> Num 20, 3 \<mapsto> Num 30, 4 \<mapsto> Num 40])"
  by (erule disjE)
     (simp_all add: walkRows.simps addRowToBuffer_def getSize_def getNewPositionForValue_def
        set_at_def)

lemma offsets_table10:
  assumes sh: "storedHeights s = (\<lambda>i. if 0 \<le> i \<and> i < 10 then Num 10 else Undefined)"
    and ro: "rowOffsets s = (\<lambda>i. 10 * i)"
    and bs: "bufferSet s = [] \<or> bufferSet s = [2, 3, 4]"
  shows "computeRenderedRowOffsets s
      \<lparr>endBufferIdx = 5, endViewportIdx = 5, firstBufferIdx = 2, firstViewportIdx = 2\<rparr> False =
      s\<lparr>bufferSet := [2, 3, 4], rowHeights := [2 \<mapsto> Num 20, 3 \<mapsto> Num 30, 4 \<mapsto> Num 40],
        rows := [Some 2, Some 3, Some 4]\<rparr>"
  unfolding computeRenderedRowOffsets_def Let_def sh ro
  by (simp add: walkRows_table10 [OF bs])

lemma run_table10:
  assumes rs: "rowSettings s = \<lparr>rowsCount = 10\<rparr>" and sch: "scrollContentHeight s = 100"
    and sc: "\<not> scrolling s"
    and sh: "storedHeights s = (\<lambda>i. if 0 \<le> i \<and> i < 10 then Num 10 else Undefined)"
    and ro: "rowOffsets s = (\<lambda>i. 10 * i)"
    and bs: "bufferSet s = [] \<or> bufferSet s = [2, 3, 4]"
  shows "computeRenderedRows (measuredCollab (\<lambda>i. 10) 0 30 30 30) s
      \<lparr>firstIndex = Some 2, firstOffset = 0, lastIndex = None, jumpRequested = j\<rparr> =
      Some (s\<lparr>firstRowIndex := 2, firstRowOffset := Num 0, bufferSet := [2, 3, 4],
              rowHeights := [2 \<mapsto> Num 20, 3 \<mapsto> Num 30, 4 \<mapsto> Num 40],
              rows := [Some 2, Some 3, Some 4], maxScrollY := 70, scrollY := Num 20,
              scrollJumpedY := (j = Some True \<and> \<not> js_strict_eq (Num 20) (scrollY s))\<rparr>)"
proof -
  let ?s1 = "s\<lparr>firstRowIndex := 2, firstRowOffset := Num 0\<rparr>"
  have o: "computeRenderedRowOffsets ?s1
      \<lparr>endBufferIdx = 5, endViewportIdx = 5, firstBufferIdx = 2, firstViewportIdx = 2\<rparr> False =
      ?s1\<lparr>bufferSet := [2, 3, 4],
        rowHeights := [2 \<mapsto> Num 20, 3 \<mapsto> Num 30, 4 \<mapsto> Num 40],
        rows := [Some 2, Some 3, Some 4]\<rparr>"
    by (rule offsets_table10) (simp_all add: sh ro bs)
  show ?thesis
    unfolding computeRenderedRows_def resolve_table10 [OF rs sch] Let_def
    using sc by (simp add: o resolvedScrollY_def lookup_def)
qed

subsection \<open>C10: the state object of the caller is not written\<close>

lemma stateObjects_writeState:
  "p' \<noteq> p \<Longrightarrow> stateObjects (writeState h p s) p' = stateObjects h p'"
  by (simp add: writeState_def Let_def)

lemma stateObjects_calculate:
  "calculateRenderedRowRange_at c h p a = Some (r, h') \<Longrightarrow> p' \<noteq> p \<Longrightarrow>
   stateObjects h' p' = stateObjects h p'"
  by (auto simp add: calculateRenderedRowRange_at_def stateObjects_writeState)

lemma stateObjects_offsets:
  "p' \<noteq> p \<Longrightarrow> stateObjects (computeRenderedRowOffsets_at h p r v) p' = stateObjects h p'"
  by (simp add: computeRenderedRowOffsets_at_def Let_def split: prod.splits)

lemma stateObjects_resolve:
  assumes "resolveRowRange_at c h p a = Some (r, h', n, m)" and "p' \<noteq> p"
  shows "stateObjects h' p' = stateObjects h p'"
proof -
  from assms(1) obtain r1 h1 where c1: "calculateRenderedRowRange_at c h p a = Some (r1, h1)"
    by (auto simp add: resolveRowRange_at_def split: option.splits)
  have s1: "stateObjects h1 p' = stateObjects h p'"
    by (rule stateObjects_calculate [OF c1 assms(2)])
  show ?thesis
  proof (cases "scrollContentHeight (stateObjects h1 p) - tableHeightsSelector c (readState h1 p) = 0
                \<and> 0 < firstViewportIdx r1")
    case True
    with assms(1) c1 obtain r2 h2 where
      c2: "calculateRenderedRowRange_at c h1 p
             \<lparr>firstIndex = None, firstOffset = 0,
              lastIndex = Some (rowsCount (rowSettings (stateObjects h1 p)) - 1),
              jumpRequested = None\<rparr> = Some (r2, h2)"
      and h': "h' = h2\<lparr>stateObjects := (stateObjects h2)
                               (p := (stateObjects h2 p)\<lparr>firstRowOffset := Num 0\<rparr>)\<rparr>"
      by (auto simp add: resolveRowRange_at_def Let_def split: option.splits)
    from stateObjects_calculate [OF c2 assms(2)] s1 assms(2) show ?thesis
      by (simp add: h')
  next
    case False
    with assms(1) c1 have "h' = h1 \<or> h' = h1\<lparr>stateObjects := (stateObjects h1)
                             (p := (stateObjects h1 p)\<lparr>firstRowOffset := Num 0\<rparr>)\<rparr>"
      by (auto simp add: resolveRowRange_at_def Let_def split: if_splits)
    with s1 assms(2) show ?thesis by auto
  qed
qed

text \<open>
  The store model computes what the model by value computes: the state read at the
  reference returned is the state \<open>computeRenderedRows\<close> returns for the state read at \<open>p\<close>.
  The copy refers to the same allocator, prefix-sum index and height array as the
  original.
\<close>

lemma readState_writeState: "readState (writeState h p s) p = s"
  by (simp add: readState_def writeState_def Let_def)

lemma readState_calculate:
  "calculateRenderedRowRange_at c h p a = Some (r, h') \<Longrightarrow>
   calculateRenderedRowRange c (readState h p) a = Some (r, readState h' p)"
  by (auto simp add: calculateRenderedRowRange_at_def readState_writeState)

lemma calculate_at_None:
  "calculateRenderedRowRange_at c h p a = None \<longleftrightarrow>
   calculateRenderedRowRange c (readState h p) a = None"
  by (simp add: calculateRenderedRowRange_at_def)

lemma readState_firstRowOffset:
  "readState (h\<lparr>stateObjects := (stateObjects h)(p := (stateObjects h p)\<lparr>firstRowOffset := v\<rparr>)\<rparr>) p
     = (readState h p)\<lparr>firstRowOffset := v\<rparr>"
  by (simp add: readState_def Let_def)

lemma readState_offsets:
  "readState (computeRenderedRowOffsets_at h p r v) p = computeRenderedRowOffsets (readState h p) r v"
  by (simp add: computeRenderedRowOffsets_at_def computeRenderedRowOffsets_def readState_def
        Let_def split: prod.splits)

lemma readState_resolve:
  "map_option (\<lambda>(r, h', n, m). (r, readState h' p, n, m)) (resolveRowRange_at c h p a) =
   resolveRowRange c (readState h p) a"
proof (cases "calculateRenderedRowRange_at c h p a")
  case None
  moreover from None have "calculateRenderedRowRange c (readState h p) a = None"
    by (simp add: calculate_at_None)
  ultimately show ?thesis
    by (simp add: resolveRowRange_at_def resolveRowRange_def)
next
  case (Some x)
  obtain r1 h1 where x: "x = (r1, h1)" by (cases x)
  note c1 = Some [unfolded x]
  note v1 = readState_calculate [OF c1]
  have scal: "rowSettings (stateObjects h1 p) = rowSettings (readState h1 p)"
    "scrollContentHeight (stateObjects h1 p) = scrollContentHeight (readState h1 p)"
    by (simp_all add: readState_def Let_def)
  show ?thesis
  proof (cases "calculateRenderedRowRange_at c h1 p
             \<lparr>firstIndex = None, firstOffset = 0,
              lastIndex = Some (rowsCount (rowSettings (readState h1 p)) - 1),
              jumpRequested = None\<rparr>")
    case None
    moreover from None have "calculateRenderedRowRange c (readState h1 p)
             \<lparr>firstIndex = None, firstOffset = 0,
              lastIndex = Some (rowsCount (rowSettings (readState h1 p)) - 1),
              jumpRequested = None\<rparr> = None"
      by (simp add: calculate_at_None)
    ultimately show ?thesis
      using c1 v1
      by (simp add: resolveRowRange_at_def resolveRowRange_def Let_def scal
            readState_firstRowOffset)
  next
    case (Some y)
    obtain r2 h2 where y: "y = (r2, h2)" by (cases y)
    note c2 = Some [unfolded y]
    note v2 = readState_calculate [OF c2]
    show ?thesis
      using c1 v1 c2 v2
      by (simp add: resolveRowRange_at_def resolveRowRange_def Let_def scal
            readState_firstRowOffset)
  qed
qed

lemma simulation:
  assumes "p < nextRef h"
  shows "map_option (\<lambda>(q, h'). readState h' q) (computeRenderedRows_at c h p a) =
         computeRenderedRows c (readState h p) a"
proof -
  define h0 where "h0 = h\<lparr>stateObjects := (stateObjects h)(nextRef h := stateObjects h p),
                 nextRef := nextRef h + 1\<rparr>"
  have ne: "p \<noteq> nextRef h" using assms by simp
  have copy: "readState h0 (nextRef h) = readState h p"
    by (simp add: readState_def h0_def Let_def)
  have s0: "stateObjects h0 p = stateObjects h p" using ne by (simp add: h0_def)
  note rr = readState_resolve [of "nextRef h" c h0 a, unfolded copy]
  show ?thesis
  proof (cases "resolveRowRange_at c h0 (nextRef h) a")
    case None
    with rr show ?thesis
      unfolding computeRenderedRows_at_def computeRenderedRows_def Let_def h0_def [symmetric]
      by simp
  next
    case (Some x)
    obtain r h3 n m where x: "x = (r, h3, n, m)" by (cases x)
    note res = Some [unfolded x]
    from rr res have vres: "resolveRowRange c (readState h p) a = Some (r, readState h3 (nextRef h), n, m)"
      by simp
    have s3: "stateObjects h3 p = stateObjects h p"
      using stateObjects_resolve [OF res ne] s0 by simp
    define h4 where "h4 = computeRenderedRowOffsets_at h3 (nextRef h) r (scrolling (stateObjects h p))"
    have s4: "stateObjects h4 p = stateObjects h p"
      using stateObjects_offsets [OF ne] s3 by (simp add: h4_def)
    have v4: "readState h4 (nextRef h) =
        computeRenderedRowOffsets (readState h3 (nextRef h)) r (scrolling (readState h p))"
      by (simp add: h4_def readState_offsets) (simp add: readState_def Let_def)
    have sc: "scrollY (stateObjects h p) = scrollY (readState h p)"
      by (simp add: readState_def Let_def)
    have pre: "rowHeightsObjects h4 (rowHeights (stateObjects h4 (nextRef h)))
                 = rowHeights (readState h4 (nextRef h))"
      "firstRowOffset (stateObjects h4 (nextRef h)) = firstRowOffset (readState h4 (nextRef h))"
      by (simp_all add: readState_def Let_def)
    have fin: "readState (h4\<lparr>stateObjects := (stateObjects h4)
                        (nextRef h := (stateObjects h4 (nextRef h))
                           \<lparr>maxScrollY := m', scrollY := y', scrollJumpedY := j'\<rparr>)\<rparr>) (nextRef h)
          = (readState h4 (nextRef h))\<lparr>maxScrollY := m', scrollY := y', scrollJumpedY := j'\<rparr>"
      for m' y' j'
      by (simp add: readState_def Let_def)
    show ?thesis
      unfolding computeRenderedRows_at_def computeRenderedRows_def Let_def h0_def [symmetric]
      using res vres
      by (simp add: s3 s4 h4_def [symmetric] pre fin v4 sc resolvedScrollY_def)
  qed
qed



lemma refs_writeState:
  "bufferSet (stateObjects (writeState h p s) p) = bufferSet (stateObjects h p) \<and>
   rowOffsets (stateObjects (writeState h p s) p) = rowOffsets (stateObjects h p) \<and>
   storedHeights (stateObjects (writeState h p s) p) = storedHeights (stateObjects h p)"
  by (simp add: writeState_def Let_def)

lemma refs_calculate:
  "calculateRenderedRowRange_at c h p a = Some (r, h') \<Longrightarrow>
   bufferSet (stateObjects h' p) = bufferSet (stateObjects h p) \<and>
   rowOffsets (stateObjects h' p) = rowOffsets (stateObjects h p) \<and>
   storedHeights (stateObjects h' p) = storedHeights (stateObjects h p)"
  by (auto simp add: calculateRenderedRowRange_at_def refs_writeState)

lemma refs_offsets:
  "bufferSet (stateObjects (computeRenderedRowOffsets_at h p r v) p) = bufferSet (stateObjects h p) \<and>
   rowOffsets (stateObjects (computeRenderedRowOffsets_at h p r v) p) = rowOffsets (stateObjects h p) \<and>
   storedHeights (stateObjects (computeRenderedRowOffsets_at h p r v) p)
     = storedHeights (stateObjects h p)"
  by (simp add: computeRenderedRowOffsets_at_def Let_def split: prod.splits)

lemma refs_resolve:
  assumes "resolveRowRange_at c h p a = Some (r, h', n, m)"
  shows "bufferSet (stateObjects h' p) = bufferSet (stateObjects h p) \<and>
   rowOffsets (stateObjects h' p) = rowOffsets (stateObjects h p) \<and>
   storedHeights (stateObjects h' p) = storedHeights (stateObjects h p)"
proof -
  from assms obtain r1 h1 where c1: "calculateRenderedRowRange_at c h p a = Some (r1, h1)"
    by (auto simp add: resolveRowRange_at_def split: option.splits)
  note k1 = refs_calculate [OF c1]
  show ?thesis
  proof (cases "scrollContentHeight (stateObjects h1 p) - tableHeightsSelector c (readState h1 p) = 0
                \<and> 0 < firstViewportIdx r1")
    case True
    with assms c1 obtain r2 h2 where
      c2: "calculateRenderedRowRange_at c h1 p
             \<lparr>firstIndex = None, firstOffset = 0,
              lastIndex = Some (rowsCount (rowSettings (stateObjects h1 p)) - 1),
              jumpRequested = None\<rparr> = Some (r2, h2)"
      and h': "h' = h2\<lparr>stateObjects := (stateObjects h2)
                               (p := (stateObjects h2 p)\<lparr>firstRowOffset := Num 0\<rparr>)\<rparr>"
      by (auto simp add: resolveRowRange_at_def Let_def split: option.splits)
    from refs_calculate [OF c2] k1 show ?thesis by (simp add: h')
  next
    case False
    with assms c1 have "h' = h1 \<or> h' = h1\<lparr>stateObjects := (stateObjects h1)
                             (p := (stateObjects h1 p)\<lparr>firstRowOffset := Num 0\<rparr>)\<rparr>"
      by (auto simp add: resolveRowRange_at_def Let_def split: if_splits)
    with k1 show ?thesis by auto
  qed
qed

lemma copy_shares_objects:
  assumes "computeRenderedRows_at c h p a = Some (q, h')"
  shows "bufferSet (stateObjects h' q) = bufferSet (stateObjects h p) \<and>
   rowOffsets (stateObjects h' q) = rowOffsets (stateObjects h p) \<and>
   storedHeights (stateObjects h' q) = storedHeights (stateObjects h p)"
proof -
  define h0 where "h0 = h\<lparr>stateObjects := (stateObjects h)(nextRef h := stateObjects h p),
                 nextRef := nextRef h + 1\<rparr>"
  have s0: "stateObjects h0 (nextRef h) = stateObjects h p" by (simp add: h0_def)
  from assms obtain r h3 n m where
    res: "resolveRowRange_at c h0 (nextRef h) a = Some (r, h3, n, m)"
    unfolding computeRenderedRows_at_def Let_def h0_def [symmetric]
    by (auto split: option.splits)
  note k3 = refs_resolve [OF res, unfolded s0]
  from assms res have q: "q = nextRef h"
    unfolding computeRenderedRows_at_def Let_def h0_def [symmetric] by simp
  from assms res
  have "bufferSet (stateObjects h' (nextRef h)) = bufferSet (stateObjects
          (computeRenderedRowOffsets_at h3 (nextRef h) r (scrolling (stateObjects h3 p))) (nextRef h))"
    "rowOffsets (stateObjects h' (nextRef h)) = rowOffsets (stateObjects
          (computeRenderedRowOffsets_at h3 (nextRef h) r (scrolling (stateObjects h3 p))) (nextRef h))"
    "storedHeights (stateObjects h' (nextRef h)) = storedHeights (stateObjects
          (computeRenderedRowOffsets_at h3 (nextRef h) r (scrolling (stateObjects h3 p))) (nextRef h))"
    unfolding computeRenderedRows_at_def Let_def h0_def [symmetric]
    by auto
  with refs_offsets [of h3 "nextRef h" r "scrolling (stateObjects h3 p)"] k3 q show ?thesis by simp
qed

text \<open>
  C10. \<open>computeRenderedRows\<close> assigns to no own property of the state object it is given:
  every assignment goes to the shallow copy, a new object. After the call the state
  object at \<open>p\<close> holds the same scalar values and the same references as before. The
  objects it refers to may have changed: the copy shares them, and the allocator (for
  one) is altered in place, as the witness shows.
\<close>

theorem original_state_object_unchanged:
  assumes "computeRenderedRows_at c h p a = Some (q, h')" and "p < nextRef h"
  shows "q = nextRef h \<and> stateObjects h' p = stateObjects h p"
proof -
  define h0 where "h0 = h\<lparr>stateObjects := (stateObjects h)(nextRef h := stateObjects h p),
                 nextRef := nextRef h + 1\<rparr>"
  have ne: "p \<noteq> nextRef h" using assms(2) by simp
  have s0: "stateObjects h0 p = stateObjects h p" using ne by (simp add: h0_def)
  from assms(1) obtain r h3 n m where
    res: "resolveRowRange_at c h0 (nextRef h) a = Some (r, h3, n, m)"
    unfolding computeRenderedRows_at_def Let_def h0_def [symmetric]
    by (auto split: option.splits)
  have s3: "stateObjects h3 p = stateObjects h p"
    using stateObjects_resolve [OF res ne] s0 by simp
  from assms(1) res have q: "q = nextRef h"
    unfolding computeRenderedRows_at_def Let_def h0_def [symmetric] by simp
  from assms(1) res have "stateObjects h' p =
      stateObjects (computeRenderedRowOffsets_at h3 (nextRef h) r (scrolling (stateObjects h3 p))) p"
    unfolding computeRenderedRows_at_def Let_def h0_def [symmetric] using ne by auto
  with stateObjects_offsets [OF ne] s3 q show ?thesis by simp
qed

theorem original_state_object_unchanged_witness:
  "0 < nextRef tableStore \<and>
   (\<exists>q h'. computeRenderedRows_at (measuredCollab (\<lambda>i. 10) 0 30 30 30) tableStore 0
        \<lparr>firstIndex = Some 2, firstOffset = 0, lastIndex = None, jumpRequested = None\<rparr>
        = Some (q, h') \<and>
      stateObjects h' 0 = stateObjects tableStore 0 \<and>
      scrollY (stateObjects h' q) = Num 20 \<and>
      bufferSetObjects tableStore (bufferSet (stateObjects tableStore 0)) = [] \<and>
      bufferSetObjects h' (bufferSet (stateObjects tableStore 0)) = [2, 3, 4])"
proof -
  let ?c = "measuredCollab (\<lambda>i. 10) 0 30 30 30"
  let ?a = "\<lparr>firstIndex = Some 2, firstOffset = 0, lastIndex = None, jumpRequested = None\<rparr>"
  let ?s = "readState tableStore 0"
  have al: "0 < nextRef tableStore" by (simp add: tableStore_def)
  have v: "computeRenderedRows ?c ?s ?a =
      Some (?s\<lparr>firstRowIndex := 2, firstRowOffset := Num 0, bufferSet := [2, 3, 4],
              rowHeights := [2 \<mapsto> Num 20, 3 \<mapsto> Num 30, 4 \<mapsto> Num 40],
              rows := [Some 2, Some 3, Some 4], maxScrollY := 70, scrollY := Num 20,
              scrollJumpedY := (None = Some True \<and> \<not> js_strict_eq (Num 20) (scrollY ?s))\<rparr>)"
    by (rule run_table10) (simp_all add: readState_def tableStore_def)
  from simulation [OF al, of ?c ?a] v
  obtain q h' where run: "computeRenderedRows_at ?c tableStore 0 ?a = Some (q, h')"
    and rd: "readState h' q =
      ?s\<lparr>firstRowIndex := 2, firstRowOffset := Num 0, bufferSet := [2, 3, 4],
              rowHeights := [2 \<mapsto> Num 20, 3 \<mapsto> Num 30, 4 \<mapsto> Num 40],
              rows := [Some 2, Some 3, Some 4], maxScrollY := 70, scrollY := Num 20,
              scrollJumpedY := (None = Some True \<and> \<not> js_strict_eq (Num 20) (scrollY ?s))\<rparr>"
    by (cases "computeRenderedRows_at ?c tableStore 0 ?a") auto
  from original_state_object_unchanged [OF run al] have fr: "stateObjects h' 0 = stateObjects tableStore 0" by simp
  from copy_shares_objects [OF run]
  have sh: "bufferSet (stateObjects h' q) = bufferSet (stateObjects tableStore 0)" by simp
  have "bufferSet (readState h' q) = [2, 3, 4]" "scrollY (readState h' q) = Num 20"
    unfolding rd by simp_all
  then have bs: "bufferSetObjects h' (bufferSet (stateObjects tableStore 0)) = [2, 3, 4]"
    and sy: "scrollY (stateObjects h' q) = Num 20"
    using sh by (simp_all add: readState_def Let_def)
  have b0: "bufferSetObjects tableStore (bufferSet (stateObjects tableStore 0)) = []"
    by (simp add: tableStore_def)
  from al run fr sy b0 bs show ?thesis by blast
qed

subsection \<open>C5: a second call on the state returned\<close>

text \<open>Collaborators that measure a row once.\<close>

lemma state_eqI: "sameFrame x y \<Longrightarrow> sameTable x y \<Longrightarrow> x = (y :: state)"
  by (cases x, cases y) (simp add: sameFrame_def sameTable_def)

lemma sameTable_sym: "sameTable x y \<Longrightarrow> sameTable y x"
  by (simp add: sameTable_def)

lemma sameTable_trans: "sameTable x y \<Longrightarrow> sameTable y z \<Longrightarrow> sameTable x z"
  by (simp add: sameTable_def)

lemma sameTable_same: "sameTable x x"
  by (simp add: sameTable_def)

lemma sameFrame_trans: "sameFrame x y \<Longrightarrow> sameFrame y z \<Longrightarrow> sameFrame x z"
  by (simp add: sameFrame_def)

lemma sameFrame_same: "sameFrame x x"
  by (simp add: sameFrame_def)

lemma measuresOnce_frame: "measuresOnce c \<Longrightarrow> sameFrame s (snd (updateRowHeight c s i))"
  unfolding measuresOnce_def by blast

lemma measuresOnce_table:
  "measuresOnce c \<Longrightarrow> sameTable s t \<Longrightarrow>
   fst (updateRowHeight c s i) = fst (updateRowHeight c t i) \<and>
   sameTable (snd (updateRowHeight c s i)) (snd (updateRowHeight c t i))"
  unfolding measuresOnce_def by blast

lemma measuresOnce_again:
  "measuresOnce c \<Longrightarrow> updateRowHeight c (snd (updateRowHeight c s i)) i = updateRowHeight c s i"
  unfolding measuresOnce_def by blast

lemma measuresOnce_stays:
  "measuresOnce c \<Longrightarrow> snd (updateRowHeight c s j) = s \<Longrightarrow>
   updateRowHeight c (snd (updateRowHeight c s i)) j =
     (fst (updateRowHeight c s j), snd (updateRowHeight c s i))"
  unfolding measuresOnce_def by blast

lemma measuresOnce_selectors:
  "measuresOnce c \<Longrightarrow> sameTable s t \<Longrightarrow>
   roughHeightsSelector c s = roughHeightsSelector c t \<and>
   scrollbarsVisibleSelector c s = scrollbarsVisibleSelector c t \<and>
   tableHeightsSelector c s = tableHeightsSelector c t"
  unfolding measuresOnce_def by blast

lemma measuresOnce_rough:
  "measuresOnce c \<Longrightarrow> roughHeightsSelector c (snd (updateRowHeight c s i)) = roughHeightsSelector c s"
  unfolding measuresOnce_def by blast

lemma keepsMeasured_same: "keepsMeasured c x x"
  by (simp add: keepsMeasured_def prod_eq_iff)

lemma keepsMeasured_trans:
  assumes "keepsMeasured c x y" "keepsMeasured c y z"
  shows "keepsMeasured c x z"
  unfolding keepsMeasured_def
proof (intro allI impI)
  fix i assume a: "snd (updateRowHeight c x i) = x"
  with assms(1) have y: "updateRowHeight c y i = (fst (updateRowHeight c x i), y)"
    unfolding keepsMeasured_def by blast
  then have "snd (updateRowHeight c y i) = y" by simp
  with assms(2) have "updateRowHeight c z i = (fst (updateRowHeight c y i), z)"
    unfolding keepsMeasured_def by blast
  with y show "updateRowHeight c z i = (fst (updateRowHeight c x i), z)" by simp
qed

lemma keepsMeasured_step:
  "measuresOnce c \<Longrightarrow> keepsMeasured c x (snd (updateRowHeight c x i))"
  unfolding keepsMeasured_def using measuresOnce_stays by blast

lemma keepsMeasured_table:
  assumes m: "measuresOnce c" and t: "sameTable x u"
  shows "keepsMeasured c x u"
  unfolding keepsMeasured_def
proof (intro allI impI)
  fix i assume a: "snd (updateRowHeight c x i) = x"
  from measuresOnce_table [OF m t, of i]
  have f: "fst (updateRowHeight c x i) = fst (updateRowHeight c u i)"
    and s: "sameTable (snd (updateRowHeight c x i)) (snd (updateRowHeight c u i))" by simp_all
  from s a have "sameTable x (snd (updateRowHeight c u i))" by simp
  with t have "sameTable u (snd (updateRowHeight c u i))"
    by (blast intro: sameTable_trans sameTable_sym)
  from state_eqI [OF measuresOnce_frame [OF m] this]
  have "snd (updateRowHeight c u i) = u" by simp
  with f show "updateRowHeight c u i = (fst (updateRowHeight c x i), u)"
    by (simp add: prod_eq_iff)
qed

text \<open>The viewport walk and the buffer loops only measure.\<close>

lemma walkViewport_measures:
  assumes m: "measuresOnce c"
  shows "walkViewport c b n maxH x rowIdx endIdx tot = (e, t, x') \<Longrightarrow>
         keepsMeasured c x x' \<and> sameFrame x x' \<and>
         roughHeightsSelector c x' = roughHeightsSelector c x"
  using m
proof (induction c b n maxH x rowIdx endIdx tot rule: walkViewport.induct)
  case (1 c b n maxH x rowIdx endIdx tot)
  note m = "1.prems"(2)
  show ?case
  proof (cases "rowIdx < n \<and> 0 \<le> rowIdx \<and> tot < maxH")
    case True
    with "1.prems"(1) have run: "walkViewport c b n maxH (snd (updateRowHeight c x rowIdx))
          (rowIdx + (if b then - 1 else 1)) rowIdx (tot + fst (updateRowHeight c x rowIdx)) =
          (e, t, x')"
      by (simp add: walkViewport.simps [of c b n maxH x rowIdx])
    note ih = "1.IH" [OF True run m]
    from ih keepsMeasured_step [OF m, of x rowIdx] have "keepsMeasured c x x'"
      by (blast intro: keepsMeasured_trans)
    moreover from ih measuresOnce_frame [OF m, of x rowIdx] have "sameFrame x x'"
      by (blast intro: sameFrame_trans)
    moreover from ih measuresOnce_rough [OF m, of x rowIdx]
    have "roughHeightsSelector c x' = roughHeightsSelector c x" by simp
    ultimately show ?thesis by simp
  next
    case False
    with "1.prems"(1) have "x' = x" by (simp add: walkViewport.simps [of c b n maxH x rowIdx])
    then show ?thesis by (simp add: keepsMeasured_same sameFrame_same)
  qed
qed

lemma touchRows_measures:
  assumes m: "measuresOnce c"
  shows "keepsMeasured c x (touchRows c x lo hi) \<and> sameFrame x (touchRows c x lo hi) \<and>
         roughHeightsSelector c (touchRows c x lo hi) = roughHeightsSelector c x"
  using m
proof (induction c x lo hi rule: touchRows.induct)
  case (1 c x rowIdx hi)
  note m = "1.prems"
  show ?case
  proof (cases "rowIdx < hi")
    case True
    then have e: "touchRows c x rowIdx hi =
        touchRows c (snd (updateRowHeight c x rowIdx)) (rowIdx + 1) hi"
      by (simp add: touchRows.simps [of c x rowIdx hi])
    note ih = "1.IH" [OF True m]
    from ih keepsMeasured_step [OF m, of x rowIdx]
    have "keepsMeasured c x (touchRows c x rowIdx hi)"
      unfolding e by (blast intro: keepsMeasured_trans)
    moreover from ih measuresOnce_frame [OF m, of x rowIdx]
    have "sameFrame x (touchRows c x rowIdx hi)"
      unfolding e by (blast intro: sameFrame_trans)
    moreover from ih measuresOnce_rough [OF m, of x rowIdx]
    have "roughHeightsSelector c (touchRows c x rowIdx hi) = roughHeightsSelector c x"
      unfolding e by simp
    ultimately show ?thesis by simp
  next
    case False
    then have "touchRows c x rowIdx hi = x" by (simp add: touchRows.simps [of c x rowIdx hi])
    then show ?thesis by (simp add: keepsMeasured_same sameFrame_same)
  qed
qed

text \<open>On a state that keeps what was measured, the walk and the loops run again unchanged.\<close>

lemma walkViewport_again:
  assumes m: "measuresOnce c"
  shows "walkViewport c b n maxH x rowIdx endIdx tot = (e, t, x') \<Longrightarrow> keepsMeasured c x' y \<Longrightarrow>
         walkViewport c b n maxH y rowIdx endIdx tot = (e, t, y)"
  using m
proof (induction c b n maxH x rowIdx endIdx tot rule: walkViewport.induct)
  case (1 c b n maxH x rowIdx endIdx tot)
  note m = "1.prems"(3)
  show ?case
  proof (cases "rowIdx < n \<and> 0 \<le> rowIdx \<and> tot < maxH")
    case True
    define x1 where "x1 = snd (updateRowHeight c x rowIdx)"
    define h where "h = fst (updateRowHeight c x rowIdx)"
    from True "1.prems"(1) have run: "walkViewport c b n maxH x1
          (rowIdx + (if b then - 1 else 1)) rowIdx (tot + h) = (e, t, x')"
      by (simp add: walkViewport.simps [of c b n maxH x rowIdx] x1_def h_def)
    have eq: "updateRowHeight c x1 rowIdx = updateRowHeight c x rowIdx"
      unfolding x1_def by (rule measuresOnce_again [OF m])
    have fx: "snd (updateRowHeight c x1 rowIdx) = x1" "fst (updateRowHeight c x1 rowIdx) = h"
      unfolding eq by (simp_all add: x1_def h_def)
    from walkViewport_measures [OF m run] have "keepsMeasured c x1 x'" by simp
    from keepsMeasured_trans [OF this "1.prems"(2)] have "keepsMeasured c x1 y" .
    with fx have uy: "updateRowHeight c y rowIdx = (h, y)" unfolding keepsMeasured_def by auto
    have ih: "walkViewport c b n maxH y (rowIdx + (if b then - 1 else 1)) rowIdx (tot + h) =
        (e, t, y)"
      using "1.IH" [OF True _ "1.prems"(2) m] run by (simp add: x1_def h_def)
    show ?thesis
      by (subst walkViewport.simps) (simp add: True uy ih)
  next
    case False
    with "1.prems"(1) have et: "e = endIdx" "t = tot"
      by (simp_all add: walkViewport.simps [of c b n maxH x rowIdx])
    show ?thesis unfolding et by (subst walkViewport.simps) (simp only: False if_False)
  qed
qed

lemma touchRows_again:
  assumes m: "measuresOnce c"
  shows "keepsMeasured c (touchRows c x lo hi) y \<Longrightarrow> touchRows c y lo hi = y"
  using m
proof (induction c x lo hi rule: touchRows.induct)
  case (1 c x rowIdx hi)
  note m = "1.prems"(2)
  show ?case
  proof (cases "rowIdx < hi")
    case True
    define x1 where "x1 = snd (updateRowHeight c x rowIdx)"
    from True have e: "touchRows c x rowIdx hi = touchRows c x1 (rowIdx + 1) hi"
      by (simp add: touchRows.simps [of c x rowIdx hi] x1_def)
    have eq: "updateRowHeight c x1 rowIdx = updateRowHeight c x rowIdx"
      unfolding x1_def by (rule measuresOnce_again [OF m])
    have fx: "snd (updateRowHeight c x1 rowIdx) = x1"
      unfolding eq by (simp add: x1_def)
    from touchRows_measures [OF m, of x1 "rowIdx + 1" hi]
    have "keepsMeasured c x1 (touchRows c x1 (rowIdx + 1) hi)" by simp
    from keepsMeasured_trans [OF this "1.prems"(1) [unfolded e]] have "keepsMeasured c x1 y" .
    with fx have uy: "snd (updateRowHeight c y rowIdx) = y" unfolding keepsMeasured_def by auto
    have ih: "touchRows c y (rowIdx + 1) hi = y"
      using "1.IH" [OF True _ m] "1.prems"(1) unfolding e by (simp add: x1_def)
    show ?thesis
      by (subst touchRows.simps) (simp add: True uy ih)
  next
    case False
    then show ?thesis by (subst touchRows.simps) simp
  qed
qed

text \<open>The resolution of the range, run again on a state with the measured table.\<close>

lemma calculate_explicit:
  assumes n: "n = rowsCount (rowSettings x)" and n0: "n \<noteq> 0"
    and rh: "rh = roughHeightsSelector c x"
    and li: "lastIdx = (if idx_ge (firstIndex a) n \<or> idx_ge (lastIndex a) n
                        then Some (n - 1) else lastIndex a)"
    and start: "(case lastIdx of Some l \<Rightarrow> Some l | None \<Rightarrow> firstIndex a) = Some startIdx"
    and w: "walkViewport c (lastIdx \<noteq> None) n (maxAvailableHeight rh) x startIdx startIdx
              (if lastIdx \<noteq> None then 0 else firstOffset a) = (e, t, x1)"
    and x3: "touchRows c
               (touchRows c x1 (max (min startIdx e - bufferRowCount rh) 0) (min startIdx e))
               (max startIdx e + 1) (min (max startIdx e + 1 + bufferRowCount rh) n) = x3"
    and av: "av = scrollbarsVisibleSelector c x3" and sh: "sh = storedHeights x3"
    and p: "p = (if lastIdx \<noteq> None then
                   (if js_ge (Num (- 1 * min (av - t) 0)) (sh (min startIdx e))
                    then (min startIdx e + 1,
                          js_add (Num (min (av - t) 0)) (sh (min startIdx e + 1)))
                    else (min startIdx e, Num (min (av - t) 0)))
                 else (min startIdx e, Num (firstOffset a)))"
  shows "calculateRenderedRowRange c x a =
     Some (\<lparr>endBufferIdx = min (max startIdx e + 1 + bufferRowCount rh) n,
            endViewportIdx = max startIdx e + 1,
            firstBufferIdx = max (min startIdx e - bufferRowCount rh) 0,
            firstViewportIdx = fst p\<rparr>,
           x3\<lparr>firstRowIndex := fst p, firstRowOffset := snd p\<rparr>)"
proof -
  have "calculateRenderedRowRange c x a =
     (let (firstViewportIdx', firstOffset') = p in
      Some (\<lparr>endBufferIdx = min (max startIdx e + 1 + bufferRowCount rh) n,
            endViewportIdx = max startIdx e + 1,
            firstBufferIdx = max (min startIdx e - bufferRowCount rh) 0,
            firstViewportIdx = firstViewportIdx'\<rparr>,
           x3\<lparr>firstRowIndex := firstViewportIdx', firstRowOffset := firstOffset'\<rparr>))"
    using n0 start w
    by (simp add: calculateRenderedRowRange_def Let_def n [symmetric] rh [symmetric]
          li [symmetric] x3 av sh p)
  then show ?thesis by (simp add: case_prod_beta)
qed

lemma calculate_again:
  assumes m: "measuresOnce c"
    and run: "calculateRenderedRowRange c s a = Some (r, s')"
    and same: "sameTable s' y"
  shows "calculateRenderedRowRange c y a =
           Some (r, if rowsCount (rowSettings s) = 0 then y
                    else y\<lparr>firstRowIndex := firstRowIndex s', firstRowOffset := firstRowOffset s'\<rparr>) \<and>
         rowSettings s' = rowSettings s \<and> scrolling s' = scrolling s \<and>
         bufferSet s' = bufferSet s \<and> rows s' = rows s \<and> rowHeights s' = rowHeights s \<and>
         (rowsCount (rowSettings s) = 0 \<longrightarrow> firstViewportIdx r = 0 \<and> s' = s)"
proof (cases "rowsCount (rowSettings s) = 0")
  case True
  with run have e: "s' = s"
    "r = \<lparr>endBufferIdx = 0, endViewportIdx = 0, firstBufferIdx = 0, firstViewportIdx = 0\<rparr>"
    by (auto simp add: calculateRenderedRowRange_def)
  from same True have "rowsCount (rowSettings y) = 0" by (simp add: sameTable_def e)
  then show ?thesis using True e by (simp add: calculateRenderedRowRange_def)
next
  case False
  define n where "n = rowsCount (rowSettings s)"
  define rh where "rh = roughHeightsSelector c s"
  define lastIdx where "lastIdx = (if idx_ge (firstIndex a) n \<or> idx_ge (lastIndex a) n
                      then Some (n - 1) else lastIndex a)"
  have n0: "n \<noteq> 0" using False by (simp add: n_def)
  have "calculateRenderedRowRange c s a = None"
    if "(case lastIdx of Some l \<Rightarrow> Some l | None \<Rightarrow> firstIndex a) = None"
    using that n0
    by (simp add: calculateRenderedRowRange_def Let_def n_def [symmetric] lastIdx_def [symmetric])
  with run obtain startIdx where
    start: "(case lastIdx of Some l \<Rightarrow> Some l | None \<Rightarrow> firstIndex a) = Some startIdx"
    by (cases "case lastIdx of Some l \<Rightarrow> Some l | None \<Rightarrow> firstIndex a") auto
  obtain e t x1 where w: "walkViewport c (lastIdx \<noteq> None) n (maxAvailableHeight rh) s startIdx
      startIdx (if lastIdx \<noteq> None then 0 else firstOffset a) = (e, t, x1)"
    by (metis prod_cases3)
  define x2 where "x2 = touchRows c x1 (max (min startIdx e - bufferRowCount rh) 0) (min startIdx e)"
  define x3 where "x3 = touchRows c x2 (max startIdx e + 1)
      (min (max startIdx e + 1 + bufferRowCount rh) n)"
  define av where "av = scrollbarsVisibleSelector c x3"
  define sh where "sh = storedHeights x3"
  define p where "p = (if lastIdx \<noteq> None then
                   (if js_ge (Num (- 1 * min (av - t) 0)) (sh (min startIdx e))
                    then (min startIdx e + 1,
                          js_add (Num (min (av - t) 0)) (sh (min startIdx e + 1)))
                    else (min startIdx e, Num (min (av - t) 0)))
                 else (min startIdx e, Num (firstOffset a)))"
  have x3': "touchRows c
               (touchRows c x1 (max (min startIdx e - bufferRowCount rh) 0) (min startIdx e))
               (max startIdx e + 1) (min (max startIdx e + 1 + bufferRowCount rh) n) = x3"
    by (simp add: x3_def x2_def)
  note cs = calculate_explicit [OF n_def n0 rh_def lastIdx_def start w x3' av_def sh_def p_def]
  from cs run have r: "r = \<lparr>endBufferIdx = min (max startIdx e + 1 + bufferRowCount rh) n,
            endViewportIdx = max startIdx e + 1,
            firstBufferIdx = max (min startIdx e - bufferRowCount rh) 0,
            firstViewportIdx = fst p\<rparr>"
    and s': "s' = x3\<lparr>firstRowIndex := fst p, firstRowOffset := snd p\<rparr>" by simp_all
  \<comment> \<open>the states of the first run\<close>
  note m1 = walkViewport_measures [OF m w]
  note m2 = touchRows_measures [OF m, of x1 "max (min startIdx e - bufferRowCount rh) 0"
      "min startIdx e", folded x2_def]
  note m3 = touchRows_measures [OF m, of x2 "max startIdx e + 1"
      "min (max startIdx e + 1 + bufferRowCount rh) n", folded x3_def]
  have fr: "sameFrame s x3"
    using m1 m2 m3 by (blast intro: sameFrame_trans)
  have rough3: "roughHeightsSelector c x3 = rh"
    using m1 m2 m3 by (simp add: rh_def)
  \<comment> \<open>the second run\<close>
  have t3: "sameTable x3 y" using same by (simp add: s' sameTable_def)
  have k3: "keepsMeasured c x3 y" by (rule keepsMeasured_table [OF m t3])
  have k2: "keepsMeasured c x2 y"
    using m3 k3 by (blast intro: keepsMeasured_trans)
  have k1: "keepsMeasured c x1 y"
    using m2 k2 by (blast intro: keepsMeasured_trans)
  have wy: "walkViewport c (lastIdx \<noteq> None) n (maxAvailableHeight rh) y startIdx
      startIdx (if lastIdx \<noteq> None then 0 else firstOffset a) = (e, t, y)"
    by (rule walkViewport_again [OF m w k1])
  have ty2: "touchRows c y (max (min startIdx e - bufferRowCount rh) 0) (min startIdx e) = y"
    by (rule touchRows_again [OF m k2 [unfolded x2_def]])
  have ty3: "touchRows c y (max startIdx e + 1)
      (min (max startIdx e + 1 + bufferRowCount rh) n) = y"
    by (rule touchRows_again [OF m k3 [unfolded x3_def]])
  have y3: "touchRows c
               (touchRows c y (max (min startIdx e - bufferRowCount rh) 0) (min startIdx e))
               (max startIdx e + 1) (min (max startIdx e + 1 + bufferRowCount rh) n) = y"
    by (simp add: ty2 ty3)
  from measuresOnce_selectors [OF m t3]
  have rhy: "rh = roughHeightsSelector c y" and avy: "av = scrollbarsVisibleSelector c y"
    by (simp_all add: rough3 [symmetric] av_def)
  have ny: "n = rowsCount (rowSettings y)" and shy: "sh = storedHeights y"
    using t3 fr by (simp_all add: sameTable_def sameFrame_def n_def sh_def)
  note cy = calculate_explicit [OF ny n0 rhy lastIdx_def start wy y3 avy shy p_def]
  have fields: "firstRowIndex s' = fst p" "firstRowOffset s' = snd p" by (simp_all add: s')
  have "rowSettings s' = rowSettings s \<and> scrolling s' = scrolling s \<and>
         bufferSet s' = bufferSet s \<and> rows s' = rows s \<and> rowHeights s' = rowHeights s"
    using fr by (simp add: s' sameFrame_def)
  with cy r fields False show ?thesis by simp
qed

lemma resolve_again:
  assumes m: "measuresOnce c"
    and c1: "calculateRenderedRowRange c s a = Some (r1, s1)"
    and run: "resolveRowRange c s a = Some (r, t, n, mx)"
    and once: "sameTable s1 t"
    and same: "sameTable t u"
    and fi: "firstRowIndex u = firstRowIndex t" and fo: "firstRowOffset u = firstRowOffset t"
  shows "resolveRowRange c u a = Some (r, u, n, mx) \<and>
         rowSettings t = rowSettings s \<and> scrolling t = scrolling s \<and>
         bufferSet t = bufferSet s \<and> rows t = rows s \<and> rowHeights t = rowHeights s"
proof -
  have s1u: "sameTable s1 u" by (rule sameTable_trans [OF once same])
  define u1 where "u1 = (if rowsCount (rowSettings s) = 0 then u
      else u\<lparr>firstRowIndex := firstRowIndex s1, firstRowOffset := firstRowOffset s1\<rparr>)"
  from calculate_again [OF m c1 s1u]
  have cu: "calculateRenderedRowRange c u a = Some (r1, u1)"
    and f1: "rowSettings s1 = rowSettings s" "scrolling s1 = scrolling s"
      "bufferSet s1 = bufferSet s" "rows s1 = rows s" "rowHeights s1 = rowHeights s"
    and z: "rowsCount (rowSettings s) = 0 \<Longrightarrow> firstViewportIdx r1 = 0"
    unfolding u1_def by simp_all
  have s1u1: "sameTable s1 u1"
    using s1u by (simp add: sameTable_def u1_def)
  have nu: "rowsCount (rowSettings u1) = rowsCount (rowSettings s)"
    and scu: "scrollContentHeight u1 = scrollContentHeight s1"
    using s1u1 f1 by (simp_all add: sameTable_def)
  have thu: "tableHeightsSelector c u1 = tableHeightsSelector c s1"
    using measuresOnce_selectors [OF m s1u1] by simp
  define m1 where "m1 = scrollContentHeight s1 - tableHeightsSelector c s1"
  show ?thesis
  proof (cases "m1 = 0")
    case False
    with run c1 have e: "r = r1" "t = s1" "n = rowsCount (rowSettings s)" "mx = m1"
      by (auto simp add: resolveRowRange_def Let_def m1_def f1)
    have "u1 = u" unfolding u1_def using fi fo e(2) by simp
    moreover have "resolveRowRange c u a = Some (r1, u1, rowsCount (rowSettings s), m1)"
      using False cu by (simp add: resolveRowRange_def Let_def scu thu nu m1_def)
    ultimately show ?thesis unfolding e using f1 by simp
  next
    case True
    note m0 = True
    show ?thesis
    proof (cases "0 < firstViewportIdx r1")
      case False
      with run c1 m0 have e: "r = r1" "t = s1\<lparr>firstRowOffset := Num 0\<rparr>"
        "n = rowsCount (rowSettings s)" "mx = m1"
        by (auto simp add: resolveRowRange_def Let_def m1_def f1)
      have "u1\<lparr>firstRowOffset := Num 0\<rparr> = u" unfolding u1_def using fi fo e(2) by simp
      moreover have "resolveRowRange c u a =
          Some (r1, u1\<lparr>firstRowOffset := Num 0\<rparr>, rowsCount (rowSettings s), m1)"
        using False m0 cu by (simp add: resolveRowRange_def Let_def scu thu nu m1_def)
      ultimately show ?thesis unfolding e using f1 by simp
    next
      case True
      with z have nz: "rowsCount (rowSettings s) \<noteq> 0" by auto
      define a2 where "a2 = \<lparr>firstIndex = None, firstOffset = 0,
          lastIndex = Some (rowsCount (rowSettings s) - 1), jumpRequested = None\<rparr>"
      from run c1 m0 True obtain r2 s2 where
        c2: "calculateRenderedRowRange c s1 a2 = Some (r2, s2)"
        by (cases "calculateRenderedRowRange c s1 a2")
           (auto simp: resolveRowRange_def Let_def m1_def f1 a2_def)
      with run c1 m0 True have e: "r = r2" "t = s2\<lparr>firstRowOffset := Num 0\<rparr>"
        "n = rowsCount (rowSettings s)" "mx = m1"
        by (auto simp add: resolveRowRange_def Let_def m1_def f1 a2_def)
      have "sameTable s2 t" by (simp add: e(2) sameTable_def)
      from sameTable_trans [OF this sameTable_sym [OF once]]
      have "sameTable s2 s1" .
      from sameTable_trans [OF this s1u1] have s2u1: "sameTable s2 u1" .
      from calculate_again [OF m c2 s2u1] nz
      have cu2: "calculateRenderedRowRange c u1 a2 =
          Some (r2, u1\<lparr>firstRowIndex := firstRowIndex s2, firstRowOffset := firstRowOffset s2\<rparr>)"
        and f2: "rowSettings s2 = rowSettings s1" "scrolling s2 = scrolling s1"
          "bufferSet s2 = bufferSet s1" "rows s2 = rows s1" "rowHeights s2 = rowHeights s1"
        by (simp_all add: f1)
      have "u1\<lparr>firstRowIndex := firstRowIndex s2, firstRowOffset := firstRowOffset s2,
               firstRowOffset := Num 0\<rparr> = u"
        unfolding u1_def using fi fo e(2) by simp
      moreover have "resolveRowRange c u a =
          Some (r2, u1\<lparr>firstRowIndex := firstRowIndex s2, firstRowOffset := firstRowOffset s2,
               firstRowOffset := Num 0\<rparr>, rowsCount (rowSettings s), m1)"
        using True m0 cu cu2 by (simp add: resolveRowRange_def Let_def scu thu nu m1_def a2_def)
      ultimately show ?thesis unfolding e using f1 f2 by simp
    qed
  qed
qed

lemma noTrailingHole_set_at: "noTrailingHole bm \<Longrightarrow> noTrailingHole (set_at bm p v)"
proof (cases "p < length bm")
  case True
  assume "noTrailingHole bm"
  with True have "bm \<noteq> []" "last bm \<noteq> None" by (auto simp: noTrailingHole_def)
  then show ?thesis using True
    by (simp add: noTrailingHole_def set_at_def last_list_update)
next
  case False
  then show ?thesis by (simp add: noTrailingHole_def set_at_def)
qed

text \<open>One turn of the loop of \<open>computeRenderedRowOffsets\<close>.\<close>

lemma walkRows_skip:
  "rowIdx < endBufferIdx r \<Longrightarrow> v \<Longrightarrow>
   rowIdx < firstViewportIdx r \<or> endViewportIdx r \<le> rowIdx \<Longrightarrow>
   walkRows v H r rowIdx bs bm cache ro =
   walkRows v H r (rowIdx + 1) bs bm (cache(rowIdx \<mapsto> ro)) (js_add ro (H rowIdx))"
  by (subst walkRows.simps) simp

lemma walkRows_assign:
  "rowIdx < endBufferIdx r \<Longrightarrow> \<not> (v \<and> (rowIdx < firstViewportIdx r \<or> endViewportIdx r \<le> rowIdx)) \<Longrightarrow>
   addRowToBuffer rowIdx bs (firstViewportIdx r) (endViewportIdx r)
     (endBufferIdx r - firstBufferIdx r) = (p, bs1) \<Longrightarrow>
   walkRows v H r rowIdx bs bm cache ro =
   walkRows v H r (rowIdx + 1) bs1 (set_at bm p rowIdx) (cache(rowIdx \<mapsto> ro))
     (js_add ro (H rowIdx))"
  by (subst walkRows.simps) auto

lemma walkRows_stop:
  "\<not> rowIdx < endBufferIdx r \<Longrightarrow> walkRows v H r rowIdx bs bm cache ro = (bs, bm, cache)"
  by (subst walkRows.simps) simp

text \<open>The offsets recorded do not depend on the allocator or on the slot array.\<close>

lemma walkRows_cache_indep:
  "snd (snd (walkRows v H r rowIdx bs bm cache ro)) =
   snd (snd (walkRows v H r rowIdx bs2 bm2 cache ro))"
proof (induction v H r rowIdx bs bm cache ro arbitrary: bs2 bm2 rule: walkRows.induct)
  case (1 v H r rowIdx bs bm cache ro)
  show ?case
  proof (cases "rowIdx < endBufferIdx r")
    case True
    note lt = True
    show ?thesis
    proof (cases "v \<and> (rowIdx < firstViewportIdx r \<or> endViewportIdx r \<le> rowIdx)")
      case True
      then have v: v and o: "rowIdx < firstViewportIdx r \<or> endViewportIdx r \<le> rowIdx" by auto
      show ?thesis
        unfolding walkRows_skip [OF lt v o] by (rule "1.IH"(1) [OF lt True])
    next
      case False
      obtain p bs1 where a1: "addRowToBuffer rowIdx bs (firstViewportIdx r) (endViewportIdx r)
           (endBufferIdx r - firstBufferIdx r) = (p, bs1)" by fastforce
      obtain p2 bs3 where a2: "addRowToBuffer rowIdx bs2 (firstViewportIdx r) (endViewportIdx r)
           (endBufferIdx r - firstBufferIdx r) = (p2, bs3)" by fastforce
      show ?thesis
        unfolding walkRows_assign [OF lt False a1] walkRows_assign [OF lt False a2]
        using "1.IH"(2) [OF lt False, unfolded a1 fst_conv snd_conv] .
    qed
  next
    case False
    then show ?thesis by (simp add: walkRows_stop)
  qed
qed

text \<open>A pass over rows that all hold their slot already changes neither the allocator nor the array.\<close>

lemma addRowToBuffer_present:
  "getValuePosition bs i = Some p \<Longrightarrow> addRowToBuffer i bs lo hi m = (p, bs)"
  by (simp add: addRowToBuffer_def)

lemma set_at_same: "p < length bm \<Longrightarrow> bm ! p = Some i \<Longrightarrow> set_at bm p i = bm"
  by (simp add: set_at_def list_update_same_conv)

lemma walkRows_noop:
  assumes "\<forall>i. rowIdx \<le> i \<and> i < endBufferIdx r \<and>
              \<not> (v \<and> (i < firstViewportIdx r \<or> endViewportIdx r \<le> i)) \<longrightarrow>
            (\<exists>p. getValuePosition bs i = Some p \<and> p < length bm \<and> bm ! p = Some i)"
  shows "fst (walkRows v H r rowIdx bs bm cache ro) = bs \<and>
         fst (snd (walkRows v H r rowIdx bs bm cache ro)) = bm"
  using assms
proof (induction v H r rowIdx bs bm cache ro rule: walkRows.induct)
  case (1 v H r rowIdx bs bm cache ro)
  show ?case
  proof (cases "rowIdx < endBufferIdx r")
    case True
    note lt = True
    have nxt: "\<forall>i. rowIdx + 1 \<le> i \<and> i < endBufferIdx r \<and>
              \<not> (v \<and> (i < firstViewportIdx r \<or> endViewportIdx r \<le> i)) \<longrightarrow>
            (\<exists>p. getValuePosition bs i = Some p \<and> p < length bm \<and> bm ! p = Some i)"
      using "1.prems" by auto
    show ?thesis
    proof (cases "v \<and> (rowIdx < firstViewportIdx r \<or> endViewportIdx r \<le> rowIdx)")
      case True
      then have v: v and o: "rowIdx < firstViewportIdx r \<or> endViewportIdx r \<le> rowIdx" by auto
      show ?thesis
        unfolding walkRows_skip [OF lt v o] by (rule "1.IH"(1) [OF lt True nxt])
    next
      case False
      with "1.prems" lt obtain p where p: "getValuePosition bs rowIdx = Some p" "p < length bm"
        "bm ! p = Some rowIdx" by force
      note a = addRowToBuffer_present [OF p(1), of "firstViewportIdx r" "endViewportIdx r"
          "endBufferIdx r - firstBufferIdx r"]
      show ?thesis
        unfolding walkRows_assign [OF lt False a] set_at_same [OF p(2) p(3)]
        using "1.IH"(2) [OF lt False, unfolded a fst_conv snd_conv set_at_same [OF p(2) p(3)], OF nxt] .
    qed
  next
    case False
    then show ?thesis by (simp add: walkRows_stop)
  qed
qed

lemma step_viewport:
  assumes d: "distinct bs"
    and add: "addRowToBuffer rowIdx bs lo hi m = (p, bs')"
    and ri: "lo \<le> rowIdx" "rowIdx < hi"
  shows "distinct bs' \<and> p < length bs' \<and> bs' ! p = rowIdx \<and> length bs \<le> length bs' \<and>
         (\<forall>q. q < length bs \<and> lo \<le> bs ! q \<and> bs ! q < hi \<longrightarrow> bs' ! q = bs ! q)"
  using addRowToBuffer_cases [OF add]
proof (elim disjE conjE exE)
  assume a: "getValuePosition bs rowIdx = Some p" "bs' = bs"
  from getValuePosition_Some [OF a(1)] d a(2) show ?thesis by simp
next
  assume a: "rowIdx \<notin> set bs" "p = length bs" "bs' = bs @ [rowIdx]"
  with d show ?thesis by (simp add: nth_append)
next
  fix victim
  assume a: "rowIdx \<notin> set bs" "furthestOutside lo (hi - 1) bs = Some victim"
    "getValuePosition bs victim = Some p" "bs' = bs[p := rowIdx]"
  from getValuePosition_Some [OF a(3)] have p: "p < length bs" "bs ! p = victim" by simp_all
  from furthestOutside_Some [OF a(2)] have out: "\<not> (lo \<le> victim \<and> victim \<le> hi - 1)" by simp
  have "distinct bs'"
    using d a(1) p(1) unfolding a(4) by (simp add: distinct_list_update)
  moreover have "\<forall>q. q < length bs \<and> lo \<le> bs ! q \<and> bs ! q < hi \<longrightarrow> bs' ! q = bs ! q"
    using p out a(4) by (auto simp: nth_list_update)
  ultimately show ?thesis using p a(4) by simp
qed

text \<open>Viewport-only mode: every viewport row walked holds a slot at the end of the pass.\<close>

lemma walkRows_viewport:
  assumes "walkRows True H r rowIdx bs bm cache ro = (bs', bm', cache')"
    and "distinct bs"
    and "\<forall>i. i < rowIdx \<and> firstBufferIdx r \<le> i \<and> i < endBufferIdx r \<and>
             firstViewportIdx r \<le> i \<and> i < endViewportIdx r \<longrightarrow>
          (\<exists>p. p < length bs \<and> bs ! p = i \<and> p < length bm \<and> bm ! p = Some i)"
  shows "distinct bs' \<and>
         (\<forall>i. firstBufferIdx r \<le> i \<and> i < endBufferIdx r \<and>
             firstViewportIdx r \<le> i \<and> i < endViewportIdx r \<longrightarrow>
          (\<exists>p. p < length bs' \<and> bs' ! p = i \<and> p < length bm' \<and> bm' ! p = Some i))"
  using assms
proof (induction "True" H r rowIdx bs bm cache ro rule: walkRows.induct)
  case (1 H r rowIdx bs bm cache ro)
  note inv = "1.prems"(3)
  show ?case
  proof (cases "rowIdx < endBufferIdx r")
    case True
    note lt = True
    show ?thesis
    proof (cases "True \<and> (rowIdx < firstViewportIdx r \<or> endViewportIdx r \<le> rowIdx)")
      case True
      then have o: "rowIdx < firstViewportIdx r \<or> endViewportIdx r \<le> rowIdx" by simp
      note run = "1.prems"(1) [unfolded walkRows_skip [OF lt TrueI o]]
      have inv': "\<forall>i. i < rowIdx + 1 \<and> firstBufferIdx r \<le> i \<and> i < endBufferIdx r \<and>
             firstViewportIdx r \<le> i \<and> i < endViewportIdx r \<longrightarrow>
          (\<exists>p. p < length bs \<and> bs ! p = i \<and> p < length bm \<and> bm ! p = Some i)"
      proof (intro allI impI)
        fix i assume i: "i < rowIdx + 1 \<and> firstBufferIdx r \<le> i \<and> i < endBufferIdx r \<and>
             firstViewportIdx r \<le> i \<and> i < endViewportIdx r"
        with o have "i < rowIdx" by auto
        with i inv show "\<exists>p. p < length bs \<and> bs ! p = i \<and> p < length bm \<and> bm ! p = Some i"
          by blast
      qed
      show ?thesis by (rule "1.hyps"(1) [OF lt True run "1.prems"(2) inv'])
    next
      case False
      then have vi: "firstViewportIdx r \<le> rowIdx" "rowIdx < endViewportIdx r" by auto
      obtain p bs1 where add: "addRowToBuffer rowIdx bs (firstViewportIdx r) (endViewportIdx r)
                (endBufferIdx r - firstBufferIdx r) = (p, bs1)"
        by (cases "addRowToBuffer rowIdx bs (firstViewportIdx r) (endViewportIdx r)
                (endBufferIdx r - firstBufferIdx r)")
      from step_viewport [OF "1.prems"(2) add vi]
      have d1: "distinct bs1" and p: "p < length bs1" "bs1 ! p = rowIdx"
        and len: "length bs \<le> length bs1"
        and keep: "\<And>q. q < length bs \<Longrightarrow> firstViewportIdx r \<le> bs ! q \<Longrightarrow>
                     bs ! q < endViewportIdx r \<Longrightarrow> bs1 ! q = bs ! q"
        by auto
      note run = "1.prems"(1) [unfolded walkRows_assign [OF lt False add]]
      have inv': "\<forall>i. i < rowIdx + 1 \<and> firstBufferIdx r \<le> i \<and> i < endBufferIdx r \<and>
             firstViewportIdx r \<le> i \<and> i < endViewportIdx r \<longrightarrow>
          (\<exists>q. q < length bs1 \<and> bs1 ! q = i \<and> q < length (set_at bm p rowIdx) \<and>
               set_at bm p rowIdx ! q = Some i)"
      proof (intro allI impI)
        fix i assume i: "i < rowIdx + 1 \<and> firstBufferIdx r \<le> i \<and> i < endBufferIdx r \<and>
             firstViewportIdx r \<le> i \<and> i < endViewportIdx r"
        show "\<exists>q. q < length bs1 \<and> bs1 ! q = i \<and> q < length (set_at bm p rowIdx) \<and>
               set_at bm p rowIdx ! q = Some i"
        proof (cases "i = rowIdx")
          case True
          with p show ?thesis by (intro exI [of _ p]) (simp add: length_set_at nth_set_at)
        next
          case False
          with i have "i < rowIdx" by simp
          with i inv obtain q where q: "q < length bs" "bs ! q = i" "q < length bm"
            "bm ! q = Some i" by blast
          from keep [OF q(1)] q(2) i have same: "bs1 ! q = i" by simp
          with p(2) False have "q \<noteq> p" by auto
          with q same len show ?thesis
            by (intro exI [of _ q]) (simp add: length_set_at nth_set_at)
        qed
      qed
      note ih = "1.hyps"(2) [OF lt False, unfolded add fst_conv snd_conv]
      show ?thesis by (rule ih [OF run d1 inv'])
    qed
  next
    case False
    with "1.prems"(1) have e: "bs' = bs" "bm' = bm" by (simp_all add: walkRows_stop)
    from False inv "1.prems"(2) show ?thesis unfolding e by auto
  qed
qed

text \<open>The allocator is left as it is when every row to be placed is in it.\<close>

lemma walkRows_present:
  assumes "\<forall>i. rowIdx \<le> i \<and> i < endBufferIdx r \<and>
              \<not> (v \<and> (i < firstViewportIdx r \<or> endViewportIdx r \<le> i)) \<longrightarrow> i \<in> set bs"
  shows "fst (walkRows v H r rowIdx bs bm cache ro) = bs"
  using assms
proof (induction v H r rowIdx bs bm cache ro rule: walkRows.induct)
  case (1 v H r rowIdx bs bm cache ro)
  show ?case
  proof (cases "rowIdx < endBufferIdx r")
    case True
    note lt = True
    have nxt: "\<forall>i. rowIdx + 1 \<le> i \<and> i < endBufferIdx r \<and>
              \<not> (v \<and> (i < firstViewportIdx r \<or> endViewportIdx r \<le> i)) \<longrightarrow> i \<in> set bs"
      using "1.prems" by auto
    show ?thesis
    proof (cases "v \<and> (rowIdx < firstViewportIdx r \<or> endViewportIdx r \<le> rowIdx)")
      case True
      then have v: v and o: "rowIdx < firstViewportIdx r \<or> endViewportIdx r \<le> rowIdx" by auto
      show ?thesis
        unfolding walkRows_skip [OF lt v o] by (rule "1.IH"(1) [OF lt True nxt])
    next
      case False
      with "1.prems" lt have "rowIdx \<in> set bs" by simp
      then obtain p where p: "getValuePosition bs rowIdx = Some p"
        using getValuePosition_None [of bs rowIdx] by (cases "getValuePosition bs rowIdx") auto
      note a = addRowToBuffer_present [OF p, of "firstViewportIdx r" "endViewportIdx r"
          "endBufferIdx r - firstBufferIdx r"]
      show ?thesis
        unfolding walkRows_assign [OF lt False a]
        using "1.IH"(2) [OF lt False, unfolded a fst_conv snd_conv, OF nxt] .
    qed
  next
    case False
    then show ?thesis by (simp add: walkRows_stop)
  qed
qed

lemma walkRows_noTrailingHole:
  "noTrailingHole bm \<Longrightarrow> noTrailingHole (fst (snd (walkRows v H r rowIdx bs bm cache ro)))"
proof (induction v H r rowIdx bs bm cache ro rule: walkRows.induct)
  case (1 v H r rowIdx bs bm cache ro)
  show ?case
  proof (cases "rowIdx < endBufferIdx r")
    case True
    note lt = True
    show ?thesis
    proof (cases "v \<and> (rowIdx < firstViewportIdx r \<or> endViewportIdx r \<le> rowIdx)")
      case True
      then have v: v and o: "rowIdx < firstViewportIdx r \<or> endViewportIdx r \<le> rowIdx" by auto
      show ?thesis
        unfolding walkRows_skip [OF lt v o] by (rule "1.IH"(1) [OF lt True "1.prems"])
    next
      case False
      obtain p bs1 where add: "addRowToBuffer rowIdx bs (firstViewportIdx r) (endViewportIdx r)
                (endBufferIdx r - firstBufferIdx r) = (p, bs1)"
        by (cases "addRowToBuffer rowIdx bs (firstViewportIdx r) (endViewportIdx r)
                (endBufferIdx r - firstBufferIdx r)")
      show ?thesis
        unfolding walkRows_assign [OF lt False add]
        using "1.IH"(2) [OF lt False, unfolded add fst_conv snd_conv,
            OF noTrailingHole_set_at [OF "1.prems"]] .
    qed
  next
    case False
    with "1.prems" show ?thesis by (simp add: walkRows_stop)
  qed
qed

text \<open>An array without a hole at its end is determined by the slots it agrees on.\<close>

lemma slotsAgree_le:
  assumes d: "distinct bs"
    and a: "slotsAgree lo hi bs bm1" and b: "slotsAgree lo hi bs bm2"
    and p: "p < length bm1" "bm1 ! p = Some v"
  shows "p < length bm2 \<and> bm2 ! p = Some v"
proof -
  from a p have v: "lo \<le> v \<and> v < hi" and bp: "p < length bs" "bs ! p = v"
    unfolding slotsAgree_def by blast+
  from b v obtain q where q: "q < length bs" "q < length bm2" "bs ! q = v" "bm2 ! q = Some v"
    unfolding slotsAgree_def by blast
  from bp(2) q(3) have "bs ! q = bs ! p" by simp
  with d bp(1) q(1) have "q = p" by (simp add: nth_eq_iff_index_eq)
  with q show ?thesis by simp
qed

lemma slotsAgree_unique:
  assumes d: "distinct bs"
    and a: "slotsAgree lo hi bs bm1" and b: "slotsAgree lo hi bs bm2"
    and h1: "noTrailingHole bm1" and h2: "noTrailingHole bm2"
  shows "bm1 = bm2"
proof -
  have le: "length x \<le> length y"
    if "slotsAgree lo hi bs x" "slotsAgree lo hi bs y" "noTrailingHole x" for x y
  proof (cases "x = []")
    case True
    then show ?thesis by simp
  next
    case False
    with that(3) obtain v where "last x = Some v" by (auto simp: noTrailingHole_def)
    with False have "length x - 1 < length x" "x ! (length x - 1) = Some v"
      by (simp_all add: last_conv_nth)
    from slotsAgree_le [OF d that(1) that(2) this] False show ?thesis
      by (cases x) auto
  qed
  from le [OF a b h1] le [OF b a h2] have len: "length bm1 = length bm2" by simp
  show ?thesis
  proof (rule nth_equalityI [OF len])
    fix p assume p: "p < length bm1"
    show "bm1 ! p = bm2 ! p"
    proof (cases "bm1 ! p")
      case (Some v)
      from slotsAgree_le [OF d a b p Some] Some show ?thesis by simp
    next
      case None
      show ?thesis
      proof (cases "bm2 ! p")
        case (Some v)
        from p len have "p < length bm2" by simp
        from slotsAgree_le [OF d b a this Some] None show ?thesis by simp
      next
        case None2: None
        with None show ?thesis by simp
      qed
    qed
  qed
qed


text \<open>Full mode: the array holds rows walked, each at the slot the allocator binds to it.\<close>

lemma step_slot:
  assumes d: "distinct bs"
    and add: "addRowToBuffer rowIdx bs lo hi m = (p, bs')"
  shows "distinct bs' \<and> p < length bs' \<and> bs' ! p = rowIdx \<and> length bs \<le> length bs' \<and>
         (\<forall>q. q < length bs \<and> q \<noteq> p \<longrightarrow> bs' ! q = bs ! q)"
  using addRowToBuffer_cases [OF add]
proof (elim disjE conjE exE)
  assume a: "getValuePosition bs rowIdx = Some p" "bs' = bs"
  from getValuePosition_Some [OF a(1)] d a(2) show ?thesis by simp
next
  assume a: "rowIdx \<notin> set bs" "p = length bs" "bs' = bs @ [rowIdx]"
  with d show ?thesis by (simp add: nth_append)
next
  fix victim
  assume a: "rowIdx \<notin> set bs" "getValuePosition bs victim = Some p" "bs' = bs[p := rowIdx]"
  from getValuePosition_Some [OF a(2)] have p: "p < length bs" by simp
  have "distinct bs'"
    using d a(1) p unfolding a(3) by (simp add: distinct_list_update)
  then show ?thesis using p a(3) by simp
qed

lemma walkRows_entries:
  assumes "walkRows False H r rowIdx bs bm cache ro = (bs', bm', cache')"
    and "distinct bs"
    and "\<forall>p v. p < length bm \<and> bm ! p = Some v \<longrightarrow>
           lo \<le> v \<and> v < rowIdx \<and> p < length bs \<and> bs ! p = v"
    and "lo \<le> rowIdx" "rowIdx \<le> endBufferIdx r"
  shows "distinct bs' \<and>
         (\<forall>p v. p < length bm' \<and> bm' ! p = Some v \<longrightarrow>
           lo \<le> v \<and> v < endBufferIdx r \<and> p < length bs' \<and> bs' ! p = v)"
  using assms
proof (induction "False" H r rowIdx bs bm cache ro rule: walkRows.induct)
  case (1 H r rowIdx bs bm cache ro)
  note inv = "1.prems"(3)
  show ?case
  proof (cases "rowIdx < endBufferIdx r")
    case True
    note lt = True
    have nv: "\<not> (False \<and> (rowIdx < firstViewportIdx r \<or> endViewportIdx r \<le> rowIdx))" by simp
    obtain p bs1 where add: "addRowToBuffer rowIdx bs (firstViewportIdx r) (endViewportIdx r)
                (endBufferIdx r - firstBufferIdx r) = (p, bs1)"
      by (cases "addRowToBuffer rowIdx bs (firstViewportIdx r) (endViewportIdx r)
                (endBufferIdx r - firstBufferIdx r)")
    from step_slot [OF "1.prems"(2) add]
    have d1: "distinct bs1" and p: "p < length bs1" "bs1 ! p = rowIdx"
      and len: "length bs \<le> length bs1"
      and keep: "\<And>q. q < length bs \<Longrightarrow> q \<noteq> p \<Longrightarrow> bs1 ! q = bs ! q"
      by auto
    note run = "1.prems"(1) [unfolded walkRows_assign [OF lt nv add]]
    have inv': "\<forall>q v. q < length (set_at bm p rowIdx) \<and> set_at bm p rowIdx ! q = Some v \<longrightarrow>
           lo \<le> v \<and> v < rowIdx + 1 \<and> q < length bs1 \<and> bs1 ! q = v"
    proof (intro allI impI)
      fix q v assume "q < length (set_at bm p rowIdx) \<and> set_at bm p rowIdx ! q = Some v"
      then have a: "q < length (set_at bm p rowIdx)" "set_at bm p rowIdx ! q = Some v"
        by simp_all
      show "lo \<le> v \<and> v < rowIdx + 1 \<and> q < length bs1 \<and> bs1 ! q = v"
      proof (cases "q = p")
        case True
        with a p "1.prems"(4) show ?thesis by (simp add: nth_set_at)
      next
        case False
        with a have q: "q < length bm" "bm ! q = Some v"
          by (auto simp: nth_set_at split: if_splits)
        with inv have "lo \<le> v" "v < rowIdx" "q < length bs" "bs ! q = v" by blast+
        with keep [of q] False len show ?thesis by simp
      qed
    qed
    have b: "lo \<le> rowIdx + 1" "rowIdx + 1 \<le> endBufferIdx r"
      using "1.prems"(4) lt by simp_all
    note ih = "1.hyps"(2) [OF lt nv, unfolded add fst_conv snd_conv]
    show ?thesis by (rule ih [OF run d1 inv' b])
  next
    case False
    with "1.prems"(1) have e: "bs' = bs" "bm' = bm" by (simp_all add: walkRows_stop)
    from False "1.prems"(5) have "rowIdx = endBufferIdx r" by simp
    with inv "1.prems"(2) show ?thesis unfolding e by blast
  qed
qed

lemma walkRows_held:
  assumes "distinct bs"
    and "\<forall>i. rowIdx \<le> i \<and> i < endBufferIdx r \<longrightarrow> i \<in> set bs"
    and "slotsAgree lo rowIdx bs bm"
    and "lo \<le> rowIdx" "rowIdx \<le> endBufferIdx r"
  shows "slotsAgree lo (endBufferIdx r) bs (fst (snd (walkRows False H r rowIdx bs bm cache ro)))"
  using assms
proof (induction "False" H r rowIdx bs bm cache ro rule: walkRows.induct)
  case (1 H r rowIdx bs bm cache ro)
  note d = "1.prems"(1) and sa = "1.prems"(3)
  show ?case
  proof (cases "rowIdx < endBufferIdx r")
    case True
    note lt = True
    have nv: "\<not> (False \<and> (rowIdx < firstViewportIdx r \<or> endViewportIdx r \<le> rowIdx))" by simp
    from "1.prems"(2) lt have "rowIdx \<in> set bs" by simp
    then obtain p where pl: "p < length bs" and pv: "bs ! p = rowIdx"
      by (auto simp: in_set_conv_nth)
    from getValuePosition_distinct [OF d pl] pv
    have pos: "getValuePosition bs rowIdx = Some p" by simp
    note add = addRowToBuffer_present [OF pos, of "firstViewportIdx r" "endViewportIdx r"
          "endBufferIdx r - firstBufferIdx r"]
    from sa have I2: "\<And>i. lo \<le> i \<Longrightarrow> i < rowIdx \<Longrightarrow>
        \<exists>q. q < length bs \<and> q < length bm \<and> bs ! q = i \<and> bm ! q = Some i"
      and I3: "\<And>q v. q < length bm \<Longrightarrow> bm ! q = Some v \<Longrightarrow>
        lo \<le> v \<and> v < rowIdx \<and> q < length bs \<and> bs ! q = v"
      by (auto simp: slotsAgree_def)
    have A: "\<exists>q. q < length bs \<and> q < length (set_at bm p rowIdx) \<and> bs ! q = i \<and>
               set_at bm p rowIdx ! q = Some i"
      if "lo \<le> i" "i < rowIdx + 1" for i
    proof (cases "i = rowIdx")
      case True
      with pl pv show ?thesis by (intro exI [of _ p]) (simp add: length_set_at nth_set_at)
    next
      case False
      with that have "i < rowIdx" by simp
      from I2 [OF that(1) this] obtain q where q: "q < length bs" "q < length bm" "bs ! q = i"
        "bm ! q = Some i" by auto
      with pv False have "q \<noteq> p" by auto
      with q show ?thesis by (intro exI [of _ q]) (simp add: length_set_at nth_set_at)
    qed
    have B: "lo \<le> v \<and> v < rowIdx + 1 \<and> q < length bs \<and> bs ! q = v"
      if "q < length (set_at bm p rowIdx)" "set_at bm p rowIdx ! q = Some v" for q v
    proof (cases "q = p")
      case True
      with that pl pv "1.prems"(4) show ?thesis by (simp add: nth_set_at)
    next
      case False
      with that have q: "q < length bm" "bm ! q = Some v"
        by (auto simp: nth_set_at split: if_splits)
      from I3 [OF q] show ?thesis by simp
    qed
    have sa': "slotsAgree lo (rowIdx + 1) bs (set_at bm p rowIdx)"
      using A B unfolding slotsAgree_def by blast
    have nxt: "\<forall>i. rowIdx + 1 \<le> i \<and> i < endBufferIdx r \<longrightarrow> i \<in> set bs"
      using "1.prems"(2) by simp
    have b: "lo \<le> rowIdx + 1" "rowIdx + 1 \<le> endBufferIdx r"
      using "1.prems"(4) lt by simp_all
    note ih = "1.hyps"(2) [OF lt nv, unfolded add fst_conv snd_conv]
    show ?thesis
      unfolding walkRows_assign [OF lt nv add] by (rule ih [OF d nxt sa' b])
  next
    case False
    with "1.prems"(5) have "rowIdx = endBufferIdx r" by simp
    with sa False show ?thesis by (simp add: walkRows_stop)
  qed
qed

lemma carryOver_twice: "carryOver (carryOver old rs c) rs c = carryOver old rs c"
  by (rule ext) (simp add: carryOver_apply lookup_def)

lemma offsets_idem_viewport:
  assumes d: "distinct (bufferSet t)"
  shows "computeRenderedRowOffsets (computeRenderedRowOffsets t r True) r True =
         computeRenderedRowOffsets t r True"
proof (cases "endBufferIdx r - firstBufferIdx r = 0")
  case True
  then show ?thesis by (simp add: computeRenderedRowOffsets_def)
next
  case False
  obtain bs1 bm1 c1 where w: "walkRows True (storedHeights t) r (firstBufferIdx r)
       (bufferSet t) (rows t) Map.empty (Num (rowOffsets t (firstBufferIdx r))) = (bs1, bm1, c1)"
    by (metis prod_cases3)
  define rh1 where "rh1 = carryOver (rowHeights t)
      (filter (\<lambda>rowIdx. \<not> inRange rowIdx (firstBufferIdx r) (endBufferIdx r)) (rowsOf bm1)) c1"
  have one: "computeRenderedRowOffsets t r True =
      t\<lparr>bufferSet := bs1, rowHeights := rh1, rows := bm1\<rparr>"
    using False w by (simp add: computeRenderedRowOffsets_def Let_def rh1_def)
  have "\<forall>i. i < firstBufferIdx r \<and> firstBufferIdx r \<le> i \<and> i < endBufferIdx r \<and>
             firstViewportIdx r \<le> i \<and> i < endViewportIdx r \<longrightarrow>
          (\<exists>p. p < length (bufferSet t) \<and> bufferSet t ! p = i \<and> p < length (rows t) \<and>
               rows t ! p = Some i)" by auto
  from walkRows_viewport [OF w d this]
  have d1: "distinct bs1"
    and slots: "\<And>i. firstBufferIdx r \<le> i \<Longrightarrow> i < endBufferIdx r \<Longrightarrow>
             firstViewportIdx r \<le> i \<Longrightarrow> i < endViewportIdx r \<Longrightarrow>
          \<exists>p. p < length bs1 \<and> bs1 ! p = i \<and> p < length bm1 \<and> bm1 ! p = Some i"
    by blast+
  have held: "\<forall>i. firstBufferIdx r \<le> i \<and> i < endBufferIdx r \<and>
              \<not> (True \<and> (i < firstViewportIdx r \<or> endViewportIdx r \<le> i)) \<longrightarrow>
            (\<exists>p. getValuePosition bs1 i = Some p \<and> p < length bm1 \<and> bm1 ! p = Some i)"
  proof (intro allI impI)
    fix i assume i: "firstBufferIdx r \<le> i \<and> i < endBufferIdx r \<and>
              \<not> (True \<and> (i < firstViewportIdx r \<or> endViewportIdx r \<le> i))"
    then have "firstBufferIdx r \<le> i" "i < endBufferIdx r" "firstViewportIdx r \<le> i"
      "i < endViewportIdx r" by auto
    from slots [OF this] obtain p where p: "p < length bs1" "bs1 ! p = i" "p < length bm1"
      "bm1 ! p = Some i" by blast
    from getValuePosition_distinct [OF d1 p(1)] p
    show "\<exists>p. getValuePosition bs1 i = Some p \<and> p < length bm1 \<and> bm1 ! p = Some i" by auto
  qed
  obtain bs2 bm2 c2 where w2: "walkRows True (storedHeights t) r (firstBufferIdx r)
       bs1 bm1 Map.empty (Num (rowOffsets t (firstBufferIdx r))) = (bs2, bm2, c2)"
    by (metis prod_cases3)
  from walkRows_noop [OF held, of "storedHeights t" Map.empty "Num (rowOffsets t (firstBufferIdx r))"]
  have e: "bs2 = bs1" "bm2 = bm1" unfolding w2 by simp_all
  from walkRows_cache_indep [of True "storedHeights t" r "firstBufferIdx r" bs1 bm1 Map.empty
      "Num (rowOffsets t (firstBufferIdx r))" "bufferSet t" "rows t"]
  have c: "c2 = c1" unfolding w w2 by simp
  have "computeRenderedRowOffsets (t\<lparr>bufferSet := bs1, rowHeights := rh1, rows := bm1\<rparr>) r True =
      t\<lparr>bufferSet := bs1, rowHeights := rh1, rows := bm1\<rparr>"
    using False w2 unfolding e c
    by (simp add: computeRenderedRowOffsets_def Let_def rh1_def carryOver_twice)
  then show ?thesis unfolding one .
qed

lemma offsets_idem_full:
  assumes d: "distinct (bufferSet t)"
    and all: "\<forall>i. firstBufferIdx r \<le> i \<and> i < endBufferIdx r \<longrightarrow>
                Some i \<in> set (rows (computeRenderedRowOffsets t r False))"
  shows "computeRenderedRowOffsets (computeRenderedRowOffsets t r False) r False =
         computeRenderedRowOffsets t r False"
proof (cases "firstBufferIdx r < endBufferIdx r")
  case False
  then show ?thesis by (simp add: computeRenderedRowOffsets_def Let_def walkRows_stop)
next
  case True
  then have ne: "endBufferIdx r - firstBufferIdx r \<noteq> 0" by simp
  obtain bs1 bm1 c1 where w: "walkRows False (storedHeights t) r (firstBufferIdx r)
       (bufferSet t) [] Map.empty (Num (rowOffsets t (firstBufferIdx r))) = (bs1, bm1, c1)"
    by (metis prod_cases3)
  have one: "computeRenderedRowOffsets t r False =
      t\<lparr>bufferSet := bs1, rowHeights := c1, rows := bm1\<rparr>"
    using ne w by (simp add: computeRenderedRowOffsets_def Let_def)
  have b: "firstBufferIdx r \<le> firstBufferIdx r" "firstBufferIdx r \<le> endBufferIdx r"
    using True by simp_all
  have init: "\<And>bs. slotsAgree (firstBufferIdx r) (firstBufferIdx r) bs []"
    by (simp add: slotsAgree_def)
  have "\<forall>p v. p < length ([] :: int option list) \<and> [] ! p = Some v \<longrightarrow>
           firstBufferIdx r \<le> v \<and> v < firstBufferIdx r \<and> p < length (bufferSet t) \<and>
           bufferSet t ! p = v" by simp
  from walkRows_entries [OF w d this b]
  have d1: "distinct bs1"
    and ent: "\<And>p v. p < length bm1 \<Longrightarrow> bm1 ! p = Some v \<Longrightarrow>
           firstBufferIdx r \<le> v \<and> v < endBufferIdx r \<and> p < length bs1 \<and> bs1 ! p = v"
    by blast+
  have held: "\<exists>p. p < length bs1 \<and> p < length bm1 \<and> bs1 ! p = i \<and> bm1 ! p = Some i"
    if "firstBufferIdx r \<le> i" "i < endBufferIdx r" for i
  proof -
    from all that have "Some i \<in> set bm1" by (simp add: one)
    then obtain p where p: "p < length bm1" "bm1 ! p = Some i" by (auto simp: in_set_conv_nth)
    from ent [OF p] p show ?thesis by blast
  qed
  have sa1: "slotsAgree (firstBufferIdx r) (endBufferIdx r) bs1 bm1"
    unfolding slotsAgree_def using held ent by blast
  have nh0: "noTrailingHole []" by (simp add: noTrailingHole_def)
  from walkRows_noTrailingHole [OF nh0, of False "storedHeights t" r "firstBufferIdx r"
      "bufferSet t" Map.empty "Num (rowOffsets t (firstBufferIdx r))"]
  have nh1: "noTrailingHole bm1" unfolding w by simp
  obtain bs2 bm2 c2 where w2: "walkRows False (storedHeights t) r (firstBufferIdx r)
       bs1 [] Map.empty (Num (rowOffsets t (firstBufferIdx r))) = (bs2, bm2, c2)"
    by (metis prod_cases3)
  have mem: "\<forall>i. firstBufferIdx r \<le> i \<and> i < endBufferIdx r \<longrightarrow> i \<in> set bs1"
  proof (intro allI impI)
    fix i assume "firstBufferIdx r \<le> i \<and> i < endBufferIdx r"
    then have "firstBufferIdx r \<le> i" "i < endBufferIdx r" by simp_all
    from held [OF this] show "i \<in> set bs1" by (auto simp: in_set_conv_nth)
  qed
  then have "\<forall>i. firstBufferIdx r \<le> i \<and> i < endBufferIdx r \<and>
              \<not> (False \<and> (i < firstViewportIdx r \<or> endViewportIdx r \<le> i)) \<longrightarrow> i \<in> set bs1"
    by simp
  from walkRows_present [OF this, of "storedHeights t" "[]" Map.empty
      "Num (rowOffsets t (firstBufferIdx r))"]
  have e: "bs2 = bs1" unfolding w2 by simp
  from walkRows_held [OF d1 mem init b, of "storedHeights t" Map.empty
      "Num (rowOffsets t (firstBufferIdx r))"]
  have sa2: "slotsAgree (firstBufferIdx r) (endBufferIdx r) bs1 bm2" unfolding w2 by simp
  from walkRows_noTrailingHole [OF nh0, of False "storedHeights t" r "firstBufferIdx r"
      bs1 Map.empty "Num (rowOffsets t (firstBufferIdx r))"]
  have nh2: "noTrailingHole bm2" unfolding w2 by simp
  have bm: "bm2 = bm1" by (rule slotsAgree_unique [OF d1 sa2 sa1 nh2 nh1])
  from walkRows_cache_indep [of False "storedHeights t" r "firstBufferIdx r" bs1 "[]" Map.empty
      "Num (rowOffsets t (firstBufferIdx r))" "bufferSet t" "[]"]
  have c: "c2 = c1" unfolding w w2 by simp
  have "computeRenderedRowOffsets (t\<lparr>bufferSet := bs1, rowHeights := c1, rows := bm1\<rparr>) r False =
      t\<lparr>bufferSet := bs1, rowHeights := c1, rows := bm1\<rparr>"
    using ne w2 unfolding e c bm
    by (simp add: computeRenderedRowOffsets_def Let_def)
  then show ?thesis unfolding one .
qed

lemma offsets_frame:
  "computeRenderedRowOffsets (t\<lparr>maxScrollY := m, scrollY := y, scrollJumpedY := j\<rparr>) r v =
   (computeRenderedRowOffsets t r v)\<lparr>maxScrollY := m, scrollY := y, scrollJumpedY := j\<rparr>"
  by (simp add: computeRenderedRowOffsets_def Let_def split: prod.splits)

lemma offsets_fields:
  "rowSettings (computeRenderedRowOffsets t r v) = rowSettings t \<and>
   scrollContentHeight (computeRenderedRowOffsets t r v) = scrollContentHeight t \<and>
   scrolling (computeRenderedRowOffsets t r v) = scrolling t \<and>
   rowOffsets (computeRenderedRowOffsets t r v) = rowOffsets t \<and>
   storedHeights (computeRenderedRowOffsets t r v) = storedHeights t \<and>
   firstRowIndex (computeRenderedRowOffsets t r v) = firstRowIndex t \<and>
   firstRowOffset (computeRenderedRowOffsets t r v) = firstRowOffset t"
  by (simp add: computeRenderedRowOffsets_def Let_def split: prod.splits)

lemma offsets_idem:
  assumes "distinct (bufferSet t)"
    and "v \<or> (\<forall>i. firstBufferIdx r \<le> i \<and> i < endBufferIdx r \<longrightarrow>
                Some i \<in> set (rows (computeRenderedRowOffsets t r v)))"
  shows "computeRenderedRowOffsets (computeRenderedRowOffsets t r v) r v =
         computeRenderedRowOffsets t r v"
proof (cases v)
  case True
  then show ?thesis using offsets_idem_viewport [OF assms(1)] by simp
next
  case False
  with assms(2) have "\<forall>i. firstBufferIdx r \<le> i \<and> i < endBufferIdx r \<longrightarrow>
                Some i \<in> set (rows (computeRenderedRowOffsets t r False))" by simp
  from offsets_idem_full [OF assms(1) this] False show ?thesis by simp
qed

text \<open>The lazily measuring height oracle keeps the contract.\<close>

lemma lazy_stored:
  "storedHeights (snd (updateRowHeight (lazyCollab height buf maxAvail avail body) s i)) =
   (storedHeights s)(i := Num (height i))"
proof (cases "storedHeights s i = Num (height i)")
  case True
  then have "(storedHeights s)(i := Num (height i)) = storedHeights s"
    by (simp add: fun_upd_idem_iff)
  with True show ?thesis by (simp add: lazyCollab_def)
next
  case False
  then show ?thesis by (simp add: lazyCollab_def Let_def)
qed

lemma lazy_fixed:
  "snd (updateRowHeight (lazyCollab height buf maxAvail avail body) s j) = s \<longleftrightarrow>
   storedHeights s j = Num (height j)"
proof
  assume a: "snd (updateRowHeight (lazyCollab height buf maxAvail avail body) s j) = s"
  have "storedHeights (snd (updateRowHeight (lazyCollab height buf maxAvail avail body) s j)) j =
      Num (height j)" by (simp add: lazy_stored)
  then show "storedHeights s j = Num (height j)" unfolding a .
next
  assume "storedHeights s j = Num (height j)"
  then show "snd (updateRowHeight (lazyCollab height buf maxAvail avail body) s j) = s"
    by (simp add: lazyCollab_def)
qed

lemma lazy_fst: "fst (updateRowHeight (lazyCollab height buf maxAvail avail body) s i) = height i"
  by (simp add: lazyCollab_def)

lemma measuresOnce_lazyCollab: "measuresOnce (lazyCollab height buf maxAvail avail body)"
proof -
  let ?c = "lazyCollab height buf maxAvail avail body"
  have 1: "\<forall>s i. sameFrame s (snd (updateRowHeight ?c s i))"
    by (simp add: lazyCollab_def Let_def sameFrame_def)
  have 2: "\<forall>s t i. sameTable s t \<longrightarrow>
         fst (updateRowHeight ?c s i) = fst (updateRowHeight ?c t i) \<and>
         sameTable (snd (updateRowHeight ?c s i)) (snd (updateRowHeight ?c t i))"
    by (simp add: lazyCollab_def Let_def sameTable_def)
  have fixed: "snd (updateRowHeight ?c x j) = x" if "storedHeights x j = Num (height j)" for x j
    using that by (simp add: lazy_fixed)
  have 3: "\<forall>s i. updateRowHeight ?c (snd (updateRowHeight ?c s i)) i = updateRowHeight ?c s i"
  proof (intro allI)
    fix s i
    have "storedHeights (snd (updateRowHeight ?c s i)) i = Num (height i)"
      by (simp add: lazy_stored)
    from fixed [OF this] show "updateRowHeight ?c (snd (updateRowHeight ?c s i)) i =
        updateRowHeight ?c s i"
      by (simp add: prod_eq_iff lazy_fst)
  qed
  have 4: "\<forall>s i j. snd (updateRowHeight ?c s j) = s \<longrightarrow>
         updateRowHeight ?c (snd (updateRowHeight ?c s i)) j =
           (fst (updateRowHeight ?c s j), snd (updateRowHeight ?c s i))"
  proof (intro allI impI)
    fix s i j assume "snd (updateRowHeight ?c s j) = s"
    then have "storedHeights s j = Num (height j)" by (simp add: lazy_fixed)
    then have "storedHeights (snd (updateRowHeight ?c s i)) j = Num (height j)"
      by (simp add: lazy_stored)
    from fixed [OF this] show "updateRowHeight ?c (snd (updateRowHeight ?c s i)) j =
           (fst (updateRowHeight ?c s j), snd (updateRowHeight ?c s i))"
      by (simp add: prod_eq_iff lazy_fst)
  qed
  have 5: "\<forall>s t. sameTable s t \<longrightarrow>
         roughHeightsSelector ?c s = roughHeightsSelector ?c t \<and>
         scrollbarsVisibleSelector ?c s = scrollbarsVisibleSelector ?c t \<and>
         tableHeightsSelector ?c s = tableHeightsSelector ?c t"
    by (simp add: lazyCollab_def)
  have 6: "\<forall>s i. roughHeightsSelector ?c (snd (updateRowHeight ?c s i)) = roughHeightsSelector ?c s"
    by (simp add: lazyCollab_def)
  from 1 2 3 4 5 6 show ?thesis unfolding measuresOnce_def by blast
qed

lemma measuresOnce_measuredCollab: "measuresOnce (measuredCollab height buf maxAvail avail body)"
  by (simp add: measuresOnce_def measuredCollab_def sameFrame_def)

text \<open>
  C5, as stated, counts \<open>scrollJumpedY\<close> among the fields that a second call reproduces.
  The flag compares \<open>scrollY\<close> before clamping with the \<open>scrollY\<close> of the state passed in,
  and the second call is passed the \<open>scrollY\<close> that the first call computed. In a table
  of ten rows of height 10 at \<open>scrollY = 0\<close>, the anchor \<open>{firstIndex: 2, firstOffset: 0,
  scrollJumpedY: true}\<close> gives \<open>scrollY = 20\<close> and \<open>scrollJumpedY = true\<close>; the second call,
  on the state returned, gives \<open>scrollJumpedY = false\<close>.
\<close>

theorem second_call_drops_scrollJumpedY:
  "\<exists>s1 s2.
     computeRenderedRows (measuredCollab (\<lambda>i. 10) 0 30 30 30)
       (tableState 10 (\<lambda>i. 10) (\<lambda>i. 10 * i))
       \<lparr>firstIndex = Some 2, firstOffset = 0, lastIndex = None, jumpRequested = Some True\<rparr>
       = Some s1 \<and>
     computeRenderedRows (measuredCollab (\<lambda>i. 10) 0 30 30 30) s1
       \<lparr>firstIndex = Some 2, firstOffset = 0, lastIndex = None, jumpRequested = Some True\<rparr>
       = Some s2 \<and>
     scrollJumpedY s1 \<and> \<not> scrollJumpedY s2"
proof -
  let ?s = "tableState 10 (\<lambda>i. 10) (\<lambda>i. 10 * i)"
  let ?s1 = "?s\<lparr>firstRowIndex := 2, firstRowOffset := Num 0, bufferSet := [2, 3, 4],
              rowHeights := [2 \<mapsto> Num 20, 3 \<mapsto> Num 30, 4 \<mapsto> Num 40],
              rows := [Some 2, Some 3, Some 4], maxScrollY := 70, scrollY := Num 20,
              scrollJumpedY := (Some True = Some True \<and> \<not> js_strict_eq (Num 20) (scrollY ?s))\<rparr>"
  let ?s2 = "?s1\<lparr>firstRowIndex := 2, firstRowOffset := Num 0, bufferSet := [2, 3, 4],
              rowHeights := [2 \<mapsto> Num 20, 3 \<mapsto> Num 30, 4 \<mapsto> Num 40],
              rows := [Some 2, Some 3, Some 4], maxScrollY := 70, scrollY := Num 20,
              scrollJumpedY := (Some True = Some True \<and> \<not> js_strict_eq (Num 20) (scrollY ?s1))\<rparr>"
  have one: "computeRenderedRows (measuredCollab (\<lambda>i. 10) 0 30 30 30) ?s
       \<lparr>firstIndex = Some 2, firstOffset = 0, lastIndex = None, jumpRequested = Some True\<rparr>
       = Some ?s1"
    by (rule run_table10) (simp_all add: tableState_def)
  have two: "computeRenderedRows (measuredCollab (\<lambda>i. 10) 0 30 30 30) ?s1
       \<lparr>firstIndex = Some 2, firstOffset = 0, lastIndex = None, jumpRequested = Some True\<rparr>
       = Some ?s2"
    by (rule run_table10) (simp_all add: tableState_def)
  have j1: "scrollJumpedY ?s1" by (simp add: tableState_def)
  have j2: "\<not> scrollJumpedY ?s2" by simp
  from one two j1 j2 show ?thesis by blast
qed

text \<open>
  What else a second call can change. The first call may measure rows, and what it
  measures while it resolves the range a second time (the content seemed to fit) comes
  after it has read \<open>maxScrollY\<close>. Three rows with stored heights 10, of which row 0 is 50
  high once measured, in a body of height 30, anchor \<open>{firstIndex: 1, firstOffset: 0}\<close>:
  the first call finds \<open>maxScrollY = 0\<close>, resolves again from the last row, measures row 0
  and returns \<open>firstRowIndex = 0\<close>, \<open>scrollY = 0\<close>, \<open>maxScrollY = 0\<close>; the second call finds
  \<open>scrollContentHeight = 70\<close> and returns \<open>firstRowIndex = 1\<close>, \<open>scrollY = 40\<close>,
  \<open>maxScrollY = 40\<close>.
\<close>

lemma three_rows_first:
  "\<exists>s1. computeRenderedRows (lazyCollab (\<lambda>i. if i = 0 then 50 else 10) 0 30 30 30)
          (tableState 3 (\<lambda>i. 10) (\<lambda>i. 10 * i))
          \<lparr>firstIndex = Some 1, firstOffset = 0, lastIndex = None, jumpRequested = None\<rparr>
          = Some s1 \<and>
     firstRowIndex s1 = 0 \<and> firstRowOffset s1 = Num 0 \<and> maxScrollY s1 = 0 \<and> scrollY s1 = Num 0 \<and>
     rows s1 = [Some 0, Some 1, Some 2] \<and>
     rowHeights s1 = [0 \<mapsto> Num 0, 1 \<mapsto> Num 50, 2 \<mapsto> Num 60] \<and>
     rowSettings s1 = \<lparr>rowsCount = 3\<rparr> \<and> scrollContentHeight s1 = 70 \<and> \<not> scrolling s1 \<and>
     bufferSet s1 = [0, 1, 2] \<and> rowOffsets s1 1 = 50 \<and>
     storedHeights s1 1 = Num 10 \<and> storedHeights s1 2 = Num 10"
  by (simp add: computeRenderedRows_def resolveRowRange_def
        calculateRenderedRowRange_def lazyCollab_def tableState_def
        idx_ge_def Let_def walkViewport.simps touchRows.simps
        computeRenderedRowOffsets_def walkRows.simps addRowToBuffer_def getSize_def
        getNewPositionForValue_def set_at_def resolvedScrollY_def lookup_def)

lemma three_rows_second:
  assumes "rowSettings u = \<lparr>rowsCount = 3\<rparr>" "scrollContentHeight u = 70" "\<not> scrolling u"
    "bufferSet u = [0, 1, 2]" "rowOffsets u 1 = 50"
    "storedHeights u 1 = Num 10" "storedHeights u 2 = Num 10"
  shows "\<exists>s2. computeRenderedRows (lazyCollab (\<lambda>i. if i = 0 then 50 else 10) 0 30 30 30) u
          \<lparr>firstIndex = Some 1, firstOffset = 0, lastIndex = None, jumpRequested = None\<rparr>
          = Some s2 \<and>
     firstRowIndex s2 = 1 \<and> maxScrollY s2 = 40 \<and> scrollY s2 = Num 40 \<and>
     rows s2 = [None, Some 1, Some 2] \<and> rowHeights s2 = [1 \<mapsto> Num 50, 2 \<mapsto> Num 60]"
  using assms
  by (simp add: computeRenderedRows_def resolveRowRange_def
        calculateRenderedRowRange_def lazyCollab_def
        idx_ge_def Let_def walkViewport.simps touchRows.simps
        computeRenderedRowOffsets_def walkRows.simps addRowToBuffer_def getSize_def
        getNewPositionForValue_def set_at_def resolvedScrollY_def lookup_def)

lemma measuring_while_resolving_again:
  "\<exists>s1 s2.
     computeRenderedRows (lazyCollab (\<lambda>i. if i = 0 then 50 else 10) 0 30 30 30)
       (tableState 3 (\<lambda>i. 10) (\<lambda>i. 10 * i))
       \<lparr>firstIndex = Some 1, firstOffset = 0, lastIndex = None, jumpRequested = None\<rparr>
       = Some s1 \<and>
     computeRenderedRows (lazyCollab (\<lambda>i. if i = 0 then 50 else 10) 0 30 30 30) s1
       \<lparr>firstIndex = Some 1, firstOffset = 0, lastIndex = None, jumpRequested = None\<rparr>
       = Some s2 \<and>
     firstRowIndex s1 = 0 \<and> firstRowIndex s2 = 1 \<and> maxScrollY s1 = 0 \<and> maxScrollY s2 = 40 \<and>
     scrollY s1 = Num 0 \<and> scrollY s2 = Num 40 \<and>
     rows s1 = [Some 0, Some 1, Some 2] \<and> rows s2 = [None, Some 1, Some 2]"
proof -
  let ?c = "lazyCollab (\<lambda>i. if i = 0 then 50 else 10) 0 30 30 30"
  let ?a = "\<lparr>firstIndex = Some 1, firstOffset = 0, lastIndex = None, jumpRequested = None\<rparr>"
  from three_rows_first obtain s1 where
    s1: "computeRenderedRows ?c (tableState 3 (\<lambda>i. 10) (\<lambda>i. 10 * i)) ?a = Some s1"
     "firstRowIndex s1 = 0" "maxScrollY s1 = 0" "scrollY s1 = Num 0"
     "rows s1 = [Some 0, Some 1, Some 2]"
     "rowSettings s1 = \<lparr>rowsCount = 3\<rparr>" "scrollContentHeight s1 = 70" "\<not> scrolling s1"
     "bufferSet s1 = [0, 1, 2]" "rowOffsets s1 1 = 50"
     "storedHeights s1 1 = Num 10" "storedHeights s1 2 = Num 10" by blast
  from three_rows_second [OF s1(6-12)] obtain s2 where
    s2: "computeRenderedRows ?c s1 ?a = Some s2"
     "firstRowIndex s2 = 1" "maxScrollY s2 = 40" "scrollY s2 = Num 40"
     "rows s2 = [None, Some 1, Some 2]" by blast
  from s1(1-5) s2 show ?thesis by blast
qed

text \<open>
  When the table is not scrolling, a row of the range that the first call walked and then
  evicted asks for a slot again in the second call. Ten rows of height 10, anchor
  \<open>{lastIndex: 3}\<close>, \<open>maxAvailableHeight = 20\<close>, \<open>availableHeight = 10\<close>, one buffer row:
  the range is \<open>[1, 5)\<close> with the viewport \<open>[3, 4)\<close>. With the allocator holding the rows
  1, 2, 3 and 5, row 4 evicts row 1 in the first call (rows 1 and 5 are both at distance
  2, and the tie goes to the smaller row index), and in the second call row 1 evicts
  row 5: \<open>rows\<close> is \<open>[4, 2, 3]\<close> after the first call and \<open>[4, 2, 3, 1]\<close> after the second.
\<close>

lemma tie_first:
  assumes "rowSettings s = \<lparr>rowsCount = 10\<rparr>" "scrollContentHeight s = 100" "\<not> scrolling s"
    "rowOffsets s 1 = 10"
    "storedHeights s 1 = Num 10" "storedHeights s 2 = Num 10" "storedHeights s 3 = Num 10"
    "storedHeights s 4 = Num 10"
    "bufferSet s = [1, 2, 3, 5]"
  shows "computeRenderedRows (measuredCollab (\<lambda>i. 10) 1 20 10 30) s
       \<lparr>firstIndex = Some 0, firstOffset = 0, lastIndex = Some 3, jumpRequested = None\<rparr> =
     Some (s\<lparr>firstRowIndex := 3, firstRowOffset := Num 0, bufferSet := [4, 2, 3, 5],
             rowHeights := [1 \<mapsto> Num 10, 2 \<mapsto> Num 20, 3 \<mapsto> Num 30, 4 \<mapsto> Num 40],
             rows := [Some 4, Some 2, Some 3], maxScrollY := 70, scrollY := Num 30,
             scrollJumpedY := False\<rparr>)"
  using assms
  by (simp add: computeRenderedRows_def resolveRowRange_def
        calculateRenderedRowRange_def measuredCollab_def
        idx_ge_def Let_def walkViewport.simps touchRows.simps
        computeRenderedRowOffsets_def walkRows.simps addRowToBuffer_def getSize_def
        getNewPositionForValue_def set_at_def replaceFurthestValuePosition_def
        further_def distance_def resolvedScrollY_def lookup_def)

lemma tie_second:
  assumes "rowSettings s = \<lparr>rowsCount = 10\<rparr>" "scrollContentHeight s = 100" "\<not> scrolling s"
    "rowOffsets s 1 = 10"
    "storedHeights s 1 = Num 10" "storedHeights s 2 = Num 10" "storedHeights s 3 = Num 10"
    "storedHeights s 4 = Num 10"
    "bufferSet s = [4, 2, 3, 5]"
  shows "computeRenderedRows (measuredCollab (\<lambda>i. 10) 1 20 10 30) s
       \<lparr>firstIndex = Some 0, firstOffset = 0, lastIndex = Some 3, jumpRequested = None\<rparr> =
     Some (s\<lparr>firstRowIndex := 3, firstRowOffset := Num 0, bufferSet := [4, 2, 3, 1],
             rowHeights := [1 \<mapsto> Num 10, 2 \<mapsto> Num 20, 3 \<mapsto> Num 30, 4 \<mapsto> Num 40],
             rows := [Some 4, Some 2, Some 3, Some 1], maxScrollY := 70, scrollY := Num 30,
             scrollJumpedY := False\<rparr>)"
  using assms
  by (simp add: computeRenderedRows_def resolveRowRange_def
        calculateRenderedRowRange_def measuredCollab_def
        idx_ge_def Let_def walkViewport.simps touchRows.simps
        computeRenderedRowOffsets_def walkRows.simps addRowToBuffer_def getSize_def
        getNewPositionForValue_def set_at_def replaceFurthestValuePosition_def
        further_def distance_def resolvedScrollY_def lookup_def)

lemma evicted_row_returns:
  "\<exists>s1 s2.
     computeRenderedRows (measuredCollab (\<lambda>i. 10) 1 20 10 30)
       ((tableState 10 (\<lambda>i. 10) (\<lambda>i. 10 * i))\<lparr>bufferSet := [1, 2, 3, 5]\<rparr>)
       \<lparr>firstIndex = Some 0, firstOffset = 0, lastIndex = Some 3, jumpRequested = None\<rparr>
       = Some s1 \<and>
     computeRenderedRows (measuredCollab (\<lambda>i. 10) 1 20 10 30) s1
       \<lparr>firstIndex = Some 0, firstOffset = 0, lastIndex = Some 3, jumpRequested = None\<rparr>
       = Some s2 \<and>
     rows s1 = [Some 4, Some 2, Some 3] \<and> rows s2 = [Some 4, Some 2, Some 3, Some 1] \<and>
     bufferSet s1 = [4, 2, 3, 5] \<and> bufferSet s2 = [4, 2, 3, 1]"
proof -
  let ?c = "measuredCollab (\<lambda>i. 10) 1 20 10 30"
  let ?a = "\<lparr>firstIndex = Some 0, firstOffset = 0, lastIndex = Some 3, jumpRequested = None\<rparr>"
  let ?s = "(tableState 10 (\<lambda>i. 10) (\<lambda>i. 10 * i))\<lparr>bufferSet := [1, 2, 3, 5]\<rparr>"
  let ?s1 = "?s\<lparr>firstRowIndex := 3, firstRowOffset := Num 0, bufferSet := [4, 2, 3, 5],
             rowHeights := [1 \<mapsto> Num 10, 2 \<mapsto> Num 20, 3 \<mapsto> Num 30, 4 \<mapsto> Num 40],
             rows := [Some 4, Some 2, Some 3], maxScrollY := 70, scrollY := Num 30,
             scrollJumpedY := False\<rparr>"
  let ?s2 = "?s1\<lparr>firstRowIndex := 3, firstRowOffset := Num 0, bufferSet := [4, 2, 3, 1],
             rowHeights := [1 \<mapsto> Num 10, 2 \<mapsto> Num 20, 3 \<mapsto> Num 30, 4 \<mapsto> Num 40],
             rows := [Some 4, Some 2, Some 3, Some 1], maxScrollY := 70, scrollY := Num 30,
             scrollJumpedY := False\<rparr>"
  have one: "computeRenderedRows ?c ?s ?a = Some ?s1"
    by (rule tie_first) (simp_all add: tableState_def)
  have two: "computeRenderedRows ?c ?s1 ?a = Some ?s2"
    by (rule tie_second) (simp_all add: tableState_def)
  have "rows ?s1 = [Some 4, Some 2, Some 3]" "rows ?s2 = [Some 4, Some 2, Some 3, Some 1]"
    "bufferSet ?s1 = [4, 2, 3, 5]" "bufferSet ?s2 = [4, 2, 3, 1]" by simp_all
  with one two show ?thesis by blast
qed

text \<open>A table of ten rows with stored heights 10 that are 20 high once measured.\<close>

lemma lazy10_resolve:
  assumes "rowSettings s = \<lparr>rowsCount = 10\<rparr>" "scrollContentHeight s = 100"
    "rowOffsets s 1 = 10" "storedHeights s 1 = Num 10" "storedHeights s 2 = Num 10"
    "storedHeights s 3 = Num 10" "storedHeights s 4 = Num 10"
  shows "\<exists>sC.
     calculateRenderedRowRange (lazyCollab (\<lambda>i. 20) 1 30 30 30) s
       \<lparr>firstIndex = Some 2, firstOffset = 0, lastIndex = None, jumpRequested = j\<rparr> =
     Some (\<lparr>endBufferIdx = 5, endViewportIdx = 4, firstBufferIdx = 1, firstViewportIdx = 2\<rparr>, sC) \<and>
     resolveRowRange (lazyCollab (\<lambda>i. 20) 1 30 30 30) s
       \<lparr>firstIndex = Some 2, firstOffset = 0, lastIndex = None, jumpRequested = j\<rparr> =
     Some (\<lparr>endBufferIdx = 5, endViewportIdx = 4, firstBufferIdx = 1, firstViewportIdx = 2\<rparr>, sC,
           10, 110) \<and>
     firstRowOffset sC = Num 0 \<and> scrollContentHeight sC = 140 \<and> rowOffsets sC 1 = 10 \<and>
     storedHeights sC 1 = Num 20 \<and> storedHeights sC 2 = Num 20 \<and> storedHeights sC 3 = Num 20 \<and>
     storedHeights sC 4 = Num 20 \<and> bufferSet sC = bufferSet s \<and> rows sC = rows s \<and>
     rowHeights sC = rowHeights s"
proof -
  let ?c = "lazyCollab (\<lambda>i. 20) 1 30 30 30"
  let ?a = "\<lparr>firstIndex = Some 2, firstOffset = 0, lastIndex = None, jumpRequested = j\<rparr>"
  let ?r = "\<lparr>endBufferIdx = 5, endViewportIdx = 4, firstBufferIdx = 1, firstViewportIdx = 2\<rparr>"
  have "\<exists>sC. calculateRenderedRowRange ?c s ?a = Some (?r, sC) \<and>
     rowSettings sC = \<lparr>rowsCount = 10\<rparr> \<and>
     firstRowOffset sC = Num 0 \<and> scrollContentHeight sC = 140 \<and> rowOffsets sC 1 = 10 \<and>
     storedHeights sC 1 = Num 20 \<and> storedHeights sC 2 = Num 20 \<and> storedHeights sC 3 = Num 20 \<and>
     storedHeights sC 4 = Num 20 \<and> bufferSet sC = bufferSet s \<and> rows sC = rows s \<and>
     rowHeights sC = rowHeights s"
    using assms
    by (simp add: calculateRenderedRowRange_def lazyCollab_def
          idx_ge_def Let_def walkViewport.simps touchRows.simps)
  then obtain sC where c: "calculateRenderedRowRange ?c s ?a = Some (?r, sC)"
    and f: "rowSettings sC = \<lparr>rowsCount = 10\<rparr>" "scrollContentHeight sC = 140"
    and g: "firstRowOffset sC = Num 0" "rowOffsets sC 1 = 10"
     "storedHeights sC 1 = Num 20" "storedHeights sC 2 = Num 20" "storedHeights sC 3 = Num 20"
     "storedHeights sC 4 = Num 20" "bufferSet sC = bufferSet s" "rows sC = rows s"
     "rowHeights sC = rowHeights s"
    by blast
  have th: "tableHeightsSelector ?c sC = 30" by (simp add: lazyCollab_def)
  have "resolveRowRange ?c s ?a = Some (?r, sC, 10, 110)"
    by (simp add: resolveRowRange_def c Let_def f th)
  with c f g show ?thesis by blast
qed

lemma lazy10_offsets_scrolling:
  assumes "rowOffsets t 1 = 10" "storedHeights t 1 = Num 20" "storedHeights t 2 = Num 20"
    "storedHeights t 3 = Num 20" "storedHeights t 4 = Num 20" "bufferSet t = [0, 1, 2]"
    "rows t = [Some 0, Some 1, Some 2]"
    "rowHeights t = [0 \<mapsto> Num 0, 1 \<mapsto> Num 10, 2 \<mapsto> Num 20]"
  shows "computeRenderedRowOffsets t
      \<lparr>endBufferIdx = 5, endViewportIdx = 4, firstBufferIdx = 1, firstViewportIdx = 2\<rparr> True =
      t\<lparr>bufferSet := [0, 1, 2, 3],
        rowHeights := [1 \<mapsto> Num 10, 2 \<mapsto> Num 30, 3 \<mapsto> Num 50, 4 \<mapsto> Num 70, 0 \<mapsto> Num 0],
        rows := [Some 0, Some 1, Some 2, Some 3]\<rparr>"
  using assms
  by (simp add: computeRenderedRowOffsets_def Let_def walkRows.simps addRowToBuffer_def getSize_def
        getNewPositionForValue_def set_at_def carryOver_def rowsOf_def inRange_def lookup_def
        List.map_filter_def)

lemma lazy10_offsets_full:
  assumes "rowOffsets t 1 = 10" "storedHeights t 1 = Num 20" "storedHeights t 2 = Num 20"
    "storedHeights t 3 = Num 20" "storedHeights t 4 = Num 20" "bufferSet t = [0, 1, 7, 8]"
  shows "computeRenderedRowOffsets t
      \<lparr>endBufferIdx = 5, endViewportIdx = 4, firstBufferIdx = 1, firstViewportIdx = 2\<rparr> False =
      t\<lparr>bufferSet := [4, 1, 3, 2],
        rowHeights := [1 \<mapsto> Num 10, 2 \<mapsto> Num 30, 3 \<mapsto> Num 50, 4 \<mapsto> Num 70],
        rows := [Some 4, Some 1, Some 3, Some 2]\<rparr>"
  using assms
  by (simp add: computeRenderedRowOffsets_def Let_def walkRows.simps addRowToBuffer_def getSize_def
        getNewPositionForValue_def set_at_def replaceFurthestValuePosition_def further_def
        distance_def)

text \<open>
  C5, amended. Let the collaborators keep their contract (\<open>measuresOnce\<close>: heights are
  measured lazily and cached, the selectors depend on the table only), and let no row
  hold two slots of the allocator. Let the first call measure no row after its first
  resolution of the range: the table after the first resolution, \<open>sC\<close>, is the table
  after the whole resolution, \<open>t\<close> (so always when the range is resolved once). When the
  table is not scrolling, let every row of the resolved range have a slot in the \<open>rows\<close>
  of the first result (as C4's conditions ensure). Then the second call, on the state
  returned by the first and with the same anchor, returns a state, and that state is the
  first in every field but \<open>scrollJumpedY\<close>: \<open>rows\<close>, \<open>rowHeights\<close>, \<open>firstRowIndex\<close>,
  \<open>firstRowOffset\<close>, \<open>scrollY\<close>, \<open>maxScrollY\<close>, and with them the allocator, the prefix sums
  and the stored heights as the first call left them. The second call sets
  \<open>scrollJumpedY\<close> when the anchor requests a jump and \<open>scrollY\<close> before clamping differs
  from the clamped \<open>scrollY\<close> of the first state.
\<close>

theorem second_call_same_state:
  assumes m: "measuresOnce c" and d: "distinct (bufferSet s)"
    and c1: "calculateRenderedRowRange c s a = Some (r1, sC)"
    and run: "resolveRowRange c s a = Some (r, t, n, mx)"
    and once: "sameTable sC t"
    and first: "computeRenderedRows c s a = Some s1"
    and cond: "scrolling s \<or>
       (\<forall>i. firstBufferIdx r \<le> i \<and> i < endBufferIdx r \<longrightarrow> Some i \<in> set (rows s1))"
  shows "\<exists>s2. computeRenderedRows c s1 a = Some s2 \<and>
           s2\<lparr>scrollJumpedY := scrollJumpedY s1\<rparr> = s1 \<and>
           scrollJumpedY s2 =
             (jumpRequested a = Some True \<and>
              (\<exists>y. scrollYBeforeClamp c s a = Some y \<and> \<not> js_strict_eq y (scrollY s1)))"
proof -
  define v where "v = scrolling s"
  define t1 where "t1 = computeRenderedRowOffsets t r v"
  define y0 where "y0 = resolvedScrollY n r t1"
  define j1 where "j1 = (jumpRequested a = Some True \<and> \<not> js_strict_eq y0 (scrollY s))"
  define j2 where "j2 = (jumpRequested a = Some True \<and> \<not> js_strict_eq y0 (scrollY s1))"
  have s1: "s1 = t1\<lparr>maxScrollY := mx, scrollY := clamp y0 0 mx, scrollJumpedY := j1\<rparr>"
    using first unfolding computeRenderedRows_def run
    by (simp add: Let_def j1_def y0_def t1_def v_def)
  have before: "scrollYBeforeClamp c s a = Some y0"
    unfolding scrollYBeforeClamp_def run by (simp add: y0_def t1_def v_def)
  note f = offsets_fields [of t r v, folded t1_def]
  have same: "sameTable t s1" using f by (simp add: sameTable_def s1)
  have fi: "firstRowIndex s1 = firstRowIndex t" and fo: "firstRowOffset s1 = firstRowOffset t"
    using f by (simp_all add: s1)
  from resolve_again [OF m c1 run once same fi fo]
  have run2: "resolveRowRange c s1 a = Some (r, s1, n, mx)"
    and bt: "bufferSet t = bufferSet s" and sct: "scrolling t = scrolling s" by simp_all
  have sc1: "scrolling s1 = v" using f sct by (simp add: s1 v_def)
  have rows1: "rows s1 = rows t1" by (simp add: s1)
  have idem: "computeRenderedRowOffsets t1 r v = t1"
    unfolding t1_def using d cond
    by (intro offsets_idem) (simp_all add: bt v_def rows1 t1_def)
  have o2: "computeRenderedRowOffsets s1 r v = s1"
    unfolding s1 offsets_frame idem ..
  have y2: "resolvedScrollY n r s1 = y0"
    by (simp add: resolvedScrollY_def s1 y0_def)
  have two: "computeRenderedRows c s1 a = Some (s1\<lparr>scrollJumpedY := j2\<rparr>)"
    unfolding computeRenderedRows_def run2
    by (simp add: Let_def sc1 o2 y2 j2_def) (simp add: s1)
  have three: "(s1\<lparr>scrollJumpedY := j2\<rparr>)\<lparr>scrollJumpedY := scrollJumpedY s1\<rparr> = s1" by simp
  have four: "scrollJumpedY (s1\<lparr>scrollJumpedY := j2\<rparr>) =
      (jumpRequested a = Some True \<and>
         (\<exists>y. scrollYBeforeClamp c s a = Some y \<and> \<not> js_strict_eq y (scrollY s1)))"
    by (simp add: before j2_def)
  from two three four show ?thesis by blast
qed

theorem second_call_same_state_witness:
  "measuresOnce (lazyCollab (\<lambda>i. 20) 1 30 30 30) \<and>
   (\<exists>s1 s2.
      computeRenderedRows (lazyCollab (\<lambda>i. 20) 1 30 30 30)
        ((tableState 10 (\<lambda>i. 10) (\<lambda>i. 10 * i))\<lparr>scrolling := True, bufferSet := [0, 1, 2],
           rows := [Some 0, Some 1, Some 2],
           rowHeights := [0 \<mapsto> Num 0, 1 \<mapsto> Num 10, 2 \<mapsto> Num 20]\<rparr>)
        \<lparr>firstIndex = Some 2, firstOffset = 0, lastIndex = None, jumpRequested = Some True\<rparr>
        = Some s1 \<and>
      computeRenderedRows (lazyCollab (\<lambda>i. 20) 1 30 30 30) s1
        \<lparr>firstIndex = Some 2, firstOffset = 0, lastIndex = None, jumpRequested = Some True\<rparr>
        = Some s2 \<and>
      s2\<lparr>scrollJumpedY := scrollJumpedY s1\<rparr> = s1 \<and>
      storedHeights s2 2 = Num 20 \<and> scrollContentHeight s2 = 140 \<and>
      bufferSet s2 = [0, 1, 2, 3] \<and> rows s2 = [Some 0, Some 1, Some 2, Some 3] \<and>
      scrollY s2 = Num 30 \<and> scrollJumpedY s1) \<and>
   (\<exists>s1 s2.
      computeRenderedRows (lazyCollab (\<lambda>i. 20) 1 30 30 30)
        ((tableState 10 (\<lambda>i. 10) (\<lambda>i. 10 * i))\<lparr>bufferSet := [0, 1, 7, 8],
           rows := [Some 0, Some 1, Some 7, Some 8]\<rparr>)
        \<lparr>firstIndex = Some 2, firstOffset = 0, lastIndex = None, jumpRequested = None\<rparr>
        = Some s1 \<and>
      computeRenderedRows (lazyCollab (\<lambda>i. 20) 1 30 30 30) s1
        \<lparr>firstIndex = Some 2, firstOffset = 0, lastIndex = None, jumpRequested = None\<rparr>
        = Some s2 \<and>
      s2\<lparr>scrollJumpedY := scrollJumpedY s1\<rparr> = s1 \<and>
      storedHeights s2 2 = Num 20 \<and>
      bufferSet s2 = [4, 1, 3, 2] \<and> rows s2 = [Some 4, Some 1, Some 3, Some 2] \<and>
      scrollY s2 = Num 30)"
proof -
  let ?c = "lazyCollab (\<lambda>i. 20) 1 30 30 30"
  let ?r = "\<lparr>endBufferIdx = 5, endViewportIdx = 4, firstBufferIdx = 1, firstViewportIdx = 2\<rparr>"
  have m: "measuresOnce ?c" by (rule measuresOnce_lazyCollab)
  \<comment> \<open>scrolling\<close>
  let ?s = "(tableState 10 (\<lambda>i. 10) (\<lambda>i. 10 * i))\<lparr>scrolling := True, bufferSet := [0, 1, 2],
           rows := [Some 0, Some 1, Some 2],
           rowHeights := [0 \<mapsto> Num 0, 1 \<mapsto> Num 10, 2 \<mapsto> Num 20]\<rparr>"
  let ?a = "\<lparr>firstIndex = Some 2, firstOffset = 0, lastIndex = None, jumpRequested = Some True\<rparr>"
  have "\<exists>sC. calculateRenderedRowRange ?c ?s ?a = Some (?r, sC) \<and>
     resolveRowRange ?c ?s ?a = Some (?r, sC, 10, 110) \<and>
     firstRowOffset sC = Num 0 \<and> scrollContentHeight sC = 140 \<and> rowOffsets sC 1 = 10 \<and>
     storedHeights sC 1 = Num 20 \<and> storedHeights sC 2 = Num 20 \<and> storedHeights sC 3 = Num 20 \<and>
     storedHeights sC 4 = Num 20 \<and> bufferSet sC = bufferSet ?s \<and> rows sC = rows ?s \<and>
     rowHeights sC = rowHeights ?s"
    by (rule lazy10_resolve) (simp_all add: tableState_def)
  then obtain sC where c1: "calculateRenderedRowRange ?c ?s ?a = Some (?r, sC)"
    and run: "resolveRowRange ?c ?s ?a = Some (?r, sC, 10, 110)"
    and f: "firstRowOffset sC = Num 0" "scrollContentHeight sC = 140"
    and g: "rowOffsets sC 1 = 10" "storedHeights sC 1 = Num 20" "storedHeights sC 2 = Num 20"
      "storedHeights sC 3 = Num 20" "storedHeights sC 4 = Num 20" "bufferSet sC = [0, 1, 2]"
      "rows sC = [Some 0, Some 1, Some 2]"
      "rowHeights sC = [0 \<mapsto> Num 0, 1 \<mapsto> Num 10, 2 \<mapsto> Num 20]"
    by auto
  define s1 where "s1 = sC\<lparr>bufferSet := [0, 1, 2, 3],
        rowHeights := [1 \<mapsto> Num 10, 2 \<mapsto> Num 30, 3 \<mapsto> Num 50, 4 \<mapsto> Num 70, 0 \<mapsto> Num 0],
        rows := [Some 0, Some 1, Some 2, Some 3], maxScrollY := 110, scrollY := Num 30,
        scrollJumpedY := True\<rparr>"
  have first: "computeRenderedRows ?c ?s ?a = Some s1"
    unfolding computeRenderedRows_def run
    by (simp add: Let_def lazy10_offsets_scrolling [OF g] resolvedScrollY_def lookup_def f
          tableState_def s1_def)
  have d: "distinct (bufferSet ?s)" by simp
  have cond: "scrolling ?s \<or> (\<forall>i. firstBufferIdx ?r \<le> i \<and> i < endBufferIdx ?r \<longrightarrow>
      Some i \<in> set (rows s1))" by simp
  from second_call_same_state [OF m d c1 run sameTable_same first cond]
  obtain s2 where two: "computeRenderedRows ?c s1 ?a = Some s2"
    and eq: "s2\<lparr>scrollJumpedY := scrollJumpedY s1\<rparr> = s1" by blast
  have v: "storedHeights s2 2 = Num 20" "scrollContentHeight s2 = 140"
    "bufferSet s2 = [0, 1, 2, 3]" "rows s2 = [Some 0, Some 1, Some 2, Some 3]"
    "scrollY s2 = Num 30" "scrollJumpedY s1"
    using arg_cong [OF eq, of storedHeights] arg_cong [OF eq, of scrollContentHeight]
      arg_cong [OF eq, of bufferSet] arg_cong [OF eq, of rows] arg_cong [OF eq, of scrollY]
    by (simp_all add: s1_def g f)
  from first two eq v have A: "\<exists>s1 s2. computeRenderedRows ?c ?s ?a = Some s1 \<and>
      computeRenderedRows ?c s1 ?a = Some s2 \<and> s2\<lparr>scrollJumpedY := scrollJumpedY s1\<rparr> = s1 \<and>
      storedHeights s2 2 = Num 20 \<and> scrollContentHeight s2 = 140 \<and>
      bufferSet s2 = [0, 1, 2, 3] \<and> rows s2 = [Some 0, Some 1, Some 2, Some 3] \<and>
      scrollY s2 = Num 30 \<and> scrollJumpedY s1" by blast
  \<comment> \<open>not scrolling\<close>
  let ?s' = "(tableState 10 (\<lambda>i. 10) (\<lambda>i. 10 * i))\<lparr>bufferSet := [0, 1, 7, 8],
           rows := [Some 0, Some 1, Some 7, Some 8]\<rparr>"
  let ?a' = "\<lparr>firstIndex = Some 2, firstOffset = 0, lastIndex = None, jumpRequested = None\<rparr>"
  have "\<exists>sC. calculateRenderedRowRange ?c ?s' ?a' = Some (?r, sC) \<and>
     resolveRowRange ?c ?s' ?a' = Some (?r, sC, 10, 110) \<and>
     firstRowOffset sC = Num 0 \<and> scrollContentHeight sC = 140 \<and> rowOffsets sC 1 = 10 \<and>
     storedHeights sC 1 = Num 20 \<and> storedHeights sC 2 = Num 20 \<and> storedHeights sC 3 = Num 20 \<and>
     storedHeights sC 4 = Num 20 \<and> bufferSet sC = bufferSet ?s' \<and> rows sC = rows ?s' \<and>
     rowHeights sC = rowHeights ?s'"
    by (rule lazy10_resolve) (simp_all add: tableState_def)
  then obtain sC' where c1': "calculateRenderedRowRange ?c ?s' ?a' = Some (?r, sC')"
    and run': "resolveRowRange ?c ?s' ?a' = Some (?r, sC', 10, 110)"
    and f': "firstRowOffset sC' = Num 0" "scrollContentHeight sC' = 140"
    and g': "rowOffsets sC' 1 = 10" "storedHeights sC' 1 = Num 20" "storedHeights sC' 2 = Num 20"
      "storedHeights sC' 3 = Num 20" "storedHeights sC' 4 = Num 20" "bufferSet sC' = [0, 1, 7, 8]"
    by auto
  define s1' where "s1' = sC'\<lparr>bufferSet := [4, 1, 3, 2],
        rowHeights := [1 \<mapsto> Num 10, 2 \<mapsto> Num 30, 3 \<mapsto> Num 50, 4 \<mapsto> Num 70],
        rows := [Some 4, Some 1, Some 3, Some 2], maxScrollY := 110, scrollY := Num 30,
        scrollJumpedY := False\<rparr>"
  have first': "computeRenderedRows ?c ?s' ?a' = Some s1'"
    unfolding computeRenderedRows_def run'
    by (simp add: Let_def lazy10_offsets_full [OF g'] resolvedScrollY_def lookup_def f'
          tableState_def s1'_def)
  have d': "distinct (bufferSet ?s')" by simp
  have "\<forall>i. (1::int) \<le> i \<and> i < 5 \<longrightarrow> i = 1 \<or> i = 2 \<or> i = 3 \<or> i = 4" by arith
  then have cond': "scrolling ?s' \<or> (\<forall>i. firstBufferIdx ?r \<le> i \<and> i < endBufferIdx ?r \<longrightarrow>
      Some i \<in> set (rows s1'))" by (auto simp add: s1'_def)
  from second_call_same_state [OF m d' c1' run' sameTable_same first' cond']
  obtain s2' where two': "computeRenderedRows ?c s1' ?a' = Some s2'"
    and eq': "s2'\<lparr>scrollJumpedY := scrollJumpedY s1'\<rparr> = s1'" by blast
  have v': "storedHeights s2' 2 = Num 20"
    "bufferSet s2' = [4, 1, 3, 2]" "rows s2' = [Some 4, Some 1, Some 3, Some 2]"
    "scrollY s2' = Num 30"
    using arg_cong [OF eq', of storedHeights]
      arg_cong [OF eq', of bufferSet] arg_cong [OF eq', of rows] arg_cong [OF eq', of scrollY]
    by (simp_all add: s1'_def g')
  from first' two' eq' v' have B: "\<exists>s1 s2. computeRenderedRows ?c ?s' ?a' = Some s1 \<and>
      computeRenderedRows ?c s1 ?a' = Some s2 \<and> s2\<lparr>scrollJumpedY := scrollJumpedY s1\<rparr> = s1 \<and>
      storedHeights s2 2 = Num 20 \<and>
      bufferSet s2 = [4, 1, 3, 2] \<and> rows s2 = [Some 4, Some 1, Some 3, Some 2] \<and>
      scrollY s2 = Num 30" by blast
  show ?thesis by (rule conjI [OF m conjI [OF A B]])
qed

end
